theory Spec2Isabelle
  imports Main "HOL-Library.Word"
begin

unbundle bit_operations_syntax

section \<open>The SD card test thread of ui\_sd\_card\_debug.cpp\<close>

text \<open>
  The embedding follows \<^verbatim>\<open>SDCardTestThread\<close> of
  \<^verbatim>\<open>firmware/application/ui_sd_card_debug.cpp\<close>: its \<^verbatim>\<open>Result\<close> enum, its
  \<^verbatim>\<open>Stats\<close> struct and the member functions \<^verbatim>\<open>run\<close>, \<^verbatim>\<open>write\<close> and \<^verbatim>\<open>read\<close>.
  The target is a 32-bit ARM core: \<^verbatim>\<open>size_t\<close>, \<^verbatim>\<open>halrtcnt_t\<close> and \<^verbatim>\<open>lfsr_word_t\<close>
  are unsigned 32-bit integers, so all three are \<open>32 word\<close> and their arithmetic wraps.
\<close>

subsection \<open>Data model\<close>

type_synonym lfsr_word_t = "32 word"
type_synonym halrtcnt_t = "32 word"
type_synonym size_t = "32 word"

datatype Result =
    FailCompare
  | FailReadIncomplete
  | FailWriteIncomplete
  | FailAbort
  | FailFileOpenRead
  | FailFileOpenWrite
  | FailHeap
  | FailThread
  | Incomplete
  | OK

record Stats =
  write_duration_min :: halrtcnt_t
  write_duration_max :: halrtcnt_t
  write_test_duration :: halrtcnt_t
  write_bytes :: size_t
  write_count :: size_t
  read_duration_min :: halrtcnt_t
  read_duration_max :: halrtcnt_t
  read_test_duration :: halrtcnt_t
  read_bytes :: size_t
  read_count :: size_t

text \<open>The default member initialisers of \<^verbatim>\<open>Stats\<close>: every field is \<^verbatim>\<open>{ 0 }\<close>.\<close>

definition Stats_init :: Stats where
  "Stats_init =
     \<lparr> write_duration_min = 0, write_duration_max = 0, write_test_duration = 0,
       write_bytes = 0, write_count = 0,
       read_duration_min = 0, read_duration_max = 0, read_test_duration = 0,
       read_bytes = 0, read_count = 0 \<rparr>"

definition write_size :: size_t where
  "write_size = 16384"

definition bytes_to_write :: size_t where
  "bytes_to_write = 16 * 1024 * 1024"

definition bytes_to_read :: size_t where
  "bytes_to_read = bytes_to_write"

text \<open>
  \<^verbatim>\<open>sizeof(lfsr_word_t)\<close>; the chunk buffer of \<^verbatim>\<open>write_size\<close> bytes is handed to the
  pattern oracle as \<^verbatim>\<open>sizeof(*buffer.get()) / sizeof(lfsr_word_t)\<close> words. The model keeps
  the buffer and the file contents as lists of such words.
\<close>

definition sizeof_lfsr_word_t :: nat where
  "sizeof_lfsr_word_t = 4"

definition buffer_words :: nat where
  "buffer_words = unat write_size div sizeof_lfsr_word_t"

subsection \<open>Pattern oracle\<close>

text \<open>
  Modelled from the spec: \<^verbatim>\<open>lfsr_random.hpp\<close> (\<^verbatim>\<open>lfsr_fill\<close>, \<^verbatim>\<open>lfsr_compare\<close> and the
  register's advance rule) is not among the sources. The spec gives the advance as a pure
  function from the current state to the next state and the emitted word; it is the
  parameter \<open>adv\<close>. \<open>lfsr_fill\<close> is the spec's \<^verbatim>\<open>generate\<close>: it emits the next \<open>n\<close>
  words, one advance per word, and returns the advanced state.
\<close>

type_synonym lfsr_advance_t = "lfsr_word_t \<Rightarrow> lfsr_word_t \<times> lfsr_word_t"

fun lfsr_fill :: "lfsr_advance_t \<Rightarrow> lfsr_word_t \<Rightarrow> nat \<Rightarrow> lfsr_word_t \<times> lfsr_word_t list" where
  "lfsr_fill adv v 0 = (v, [])"
| "lfsr_fill adv v (Suc n) =
     (case adv v of (v1, w) \<Rightarrow>
        (case lfsr_fill adv v1 n of (v2, ws) \<Rightarrow> (v2, w # ws)))"

text \<open>
  Modelled from the spec: \<open>lfsr_compare\<close> is the spec's \<^verbatim>\<open>verify\<close>. It advances the
  register once per word, compares each regenerated word with the buffer's word at the
  same place, and returns the advanced state with whether all words matched. A buffer
  with fewer than \<open>n\<close> words does not match (the program always passes a full chunk).
\<close>

fun lfsr_compare :: "lfsr_advance_t \<Rightarrow> lfsr_word_t \<Rightarrow> lfsr_word_t list \<Rightarrow> nat \<Rightarrow> lfsr_word_t \<times> bool" where
  "lfsr_compare adv v buffer 0 = (v, True)"
| "lfsr_compare adv v buffer (Suc n) =
     (case adv v of (v1, w) \<Rightarrow>
        (case buffer of
           [] \<Rightarrow> (fst (lfsr_fill adv v1 n), False)
         | b # rest \<Rightarrow>
             (case lfsr_compare adv v1 rest n of (v2, matched) \<Rightarrow> (v2, b = w \<and> matched))))"

subsection \<open>Collaborators: cancellation flag, cycle counter, heap and storage\<close>

text \<open>
  What the thread consumes from outside is scripted by an environment: the answer of
  each call, by the number of earlier calls of the same primitive. \<open>read_damage\<close> is
  what the medium does to the words of a chunk on their way back (the identity on a
  faultless card).
\<close>

record env =
  lfsr_advance :: lfsr_advance_t
  terminate_requested :: "nat \<Rightarrow> bool"
  counter_reading :: "nat \<Rightarrow> halrtcnt_t"
  heap_ok :: "nat \<Rightarrow> bool"
  open_write_ok :: "nat \<Rightarrow> bool"
  open_read_ok :: "nat \<Rightarrow> bool"
  ready_ok :: "nat \<Rightarrow> bool"
  write_ok :: "nat \<Rightarrow> bool"
  read_ok :: "nat \<Rightarrow> bool"
  read_damage :: "nat \<Rightarrow> lfsr_word_t list \<Rightarrow> lfsr_word_t list"

text \<open>
  The state threaded through the thread: its \<^verbatim>\<open>_stats\<close> member, how often each
  primitive has been called, the files on the card and the number of file handles
  currently open.
\<close>

record sys =
  stats :: Stats
  polls :: nat
  ticks :: nat
  allocs :: nat
  opens_w :: nat
  opens_r :: nat
  readies :: nat
  writes :: nat
  reads :: nat
  unlinks :: nat
  files :: "string \<rightharpoonup> lfsr_word_t list"
  open_handles :: nat

definition sys_init :: "(string \<rightharpoonup> lfsr_word_t list) \<Rightarrow> sys" where
  "sys_init fs =
     \<lparr> stats = Stats_init, polls = 0, ticks = 0, allocs = 0, opens_w = 0, opens_r = 0,
       readies = 0, writes = 0, reads = 0, unlinks = 0, files = fs, open_handles = 0 \<rparr>"

definition chThdShouldTerminate :: "env \<Rightarrow> sys \<Rightarrow> bool \<times> sys" where
  "chThdShouldTerminate e s = (terminate_requested e (polls s), s\<lparr>polls := Suc (polls s)\<rparr>)"

definition halGetCounterValue :: "env \<Rightarrow> sys \<Rightarrow> halrtcnt_t \<times> sys" where
  "halGetCounterValue e s = (counter_reading e (ticks s), s\<lparr>ticks := Suc (ticks s)\<rparr>)"

text \<open>\<^verbatim>\<open>std::make_unique\<close> of the chunk buffer; the flag is \<^verbatim>\<open>buffer\<close> tested as a bool.\<close>

definition make_unique :: "env \<Rightarrow> sys \<Rightarrow> bool \<times> sys" where
  "make_unique e s = (heap_ok e (allocs s), s\<lparr>allocs := Suc (allocs s)\<rparr>)"

text \<open>
  Modelled from the spec: the \<^verbatim>\<open>File\<close> class (\<^verbatim>\<open>file.hpp\<close>) is not among the sources.
  The spec lists open-for-write, open-for-read, write(chunk) and read(chunk) returning a
  success flag, is-ready, close and delete; a written chunk is appended to the file; the
  handle is closed on every exit of its scope. Here opening for writing starts the file
  empty, opening for reading needs the file to exist, a read succeeds only with a whole
  chunk and moves the read position behind it, and closing a handle that is not open
  does nothing. Every call is counted, whether it succeeds or not.
\<close>

datatype File = NotOpen | OpenForWriting string | OpenForReading string nat

definition open_for_writing :: "env \<Rightarrow> string \<Rightarrow> sys \<Rightarrow> bool \<times> File \<times> sys" where
  "open_for_writing e path s =
     (if open_write_ok e (opens_w s)
      then (True, OpenForWriting path,
            s\<lparr>opens_w := Suc (opens_w s), files := (files s)(path \<mapsto> []),
              open_handles := Suc (open_handles s)\<rparr>)
      else (False, NotOpen, s\<lparr>opens_w := Suc (opens_w s)\<rparr>))"

definition open_for_reading :: "env \<Rightarrow> string \<Rightarrow> sys \<Rightarrow> bool \<times> File \<times> sys" where
  "open_for_reading e path s =
     (if open_read_ok e (opens_r s) \<and> files s path \<noteq> None
      then (True, OpenForReading path 0,
            s\<lparr>opens_r := Suc (opens_r s), open_handles := Suc (open_handles s)\<rparr>)
      else (False, NotOpen, s\<lparr>opens_r := Suc (opens_r s)\<rparr>))"

definition is_ready :: "env \<Rightarrow> File \<Rightarrow> sys \<Rightarrow> bool \<times> sys" where
  "is_ready e file s = (file \<noteq> NotOpen \<and> ready_ok e (readies s), s\<lparr>readies := Suc (readies s)\<rparr>)"

definition File_write :: "env \<Rightarrow> File \<Rightarrow> lfsr_word_t list \<Rightarrow> sys \<Rightarrow> bool \<times> sys" where
  "File_write e file buffer s =
     (case file of
        OpenForWriting path \<Rightarrow>
          (if write_ok e (writes s)
           then (True, s\<lparr>writes := Suc (writes s),
                         files := (files s)(path \<mapsto> (case files s path of None \<Rightarrow> [] | Some c \<Rightarrow> c) @ buffer)\<rparr>)
           else (False, s\<lparr>writes := Suc (writes s)\<rparr>))
      | _ \<Rightarrow> (False, s\<lparr>writes := Suc (writes s)\<rparr>))"

definition File_read :: "env \<Rightarrow> File \<Rightarrow> nat \<Rightarrow> sys \<Rightarrow> bool \<times> lfsr_word_t list \<times> File \<times> sys" where
  "File_read e file n s =
     (case file of
        OpenForReading path pos \<Rightarrow>
          (case files s path of
             Some c \<Rightarrow>
               (if read_ok e (reads s) \<and> pos + n \<le> length c
                then (True, read_damage e (reads s) (take n (drop pos c)),
                      OpenForReading path (pos + n), s\<lparr>reads := Suc (reads s)\<rparr>)
                else (False, [], file, s\<lparr>reads := Suc (reads s)\<rparr>))
           | None \<Rightarrow> (False, [], file, s\<lparr>reads := Suc (reads s)\<rparr>))
      | _ \<Rightarrow> (False, [], file, s\<lparr>reads := Suc (reads s)\<rparr>))"

definition File_close :: "File \<Rightarrow> sys \<Rightarrow> File \<times> sys" where
  "File_close file s =
     (NotOpen, if file = NotOpen then s else s\<lparr>open_handles := open_handles s - 1\<rparr>)"

text \<open>
  Modelled from the spec: the end of the scope of the local \<^verbatim>\<open>File file\<close>. The spec
  has the handle closed on every exit path by scoped-resource discipline, so a handle
  still open is closed here (\<^verbatim>\<open>File\<close>'s destructor is not among the sources).
\<close>

definition File_destroy :: "File \<Rightarrow> sys \<Rightarrow> sys" where
  "File_destroy file s = snd (File_close file s)"

definition f_unlink :: "string \<Rightarrow> sys \<Rightarrow> sys" where
  "f_unlink path s = s\<lparr>unlinks := Suc (unlinks s), files := (files s)(path := None)\<rparr>"

subsection \<open>Write phase\<close>

text \<open>
  The bookkeeping after a successful \<^verbatim>\<open>file.write\<close> (lines 155 to 164): bytes and count,
  then the minimum, then the maximum of the chunk durations.
\<close>

definition account_write :: "halrtcnt_t \<Rightarrow> Stats \<Rightarrow> Stats" where
  "account_write write_duration st =
     (let st1 = st\<lparr>write_bytes := write_bytes st + write_size,
                   write_count := write_count st + 1\<rparr>;
          st2 = (if write_duration_min st1 = 0 \<or> write_duration < write_duration_min st1
                 then st1\<lparr>write_duration_min := write_duration\<rparr> else st1)
      in (if write_duration > write_duration_max st2
          then st2\<lparr>write_duration_max := write_duration\<rparr> else st2))"

datatype 'a flow = Continue 'a | Break 'a

text \<open>
  One evaluation of the \<^verbatim>\<open>while\<close> condition of \<^verbatim>\<open>write\<close> and, when it holds, one pass
  through the body. The condition short-circuits: \<^verbatim>\<open>is_ready\<close> is asked only when no
  termination is requested.
\<close>

definition write_iteration :: "env \<Rightarrow> File \<Rightarrow> lfsr_word_t \<times> sys \<Rightarrow> (lfsr_word_t \<times> sys) flow" where
  "write_iteration e file st =
     (case st of (v, s) \<Rightarrow>
      (case chThdShouldTerminate e s of (stop, s1) \<Rightarrow>
       if stop then Break (v, s1) else
       (case is_ready e file s1 of (rdy, s2) \<Rightarrow>
        if \<not> rdy then Break (v, s2) else
        if \<not> write_bytes (stats s2) < bytes_to_write then Break (v, s2) else
        (case lfsr_fill (lfsr_advance e) v buffer_words of (v1, buffer) \<Rightarrow>
         (case halGetCounterValue e s2 of (write_start, s3) \<Rightarrow>
          (case File_write e file buffer s3 of (written, s4) \<Rightarrow>
           if \<not> written then Break (v1, s4) else
           (case halGetCounterValue e s4 of (write_end, s5) \<Rightarrow>
              Continue (v1, s5\<lparr>stats := account_write (write_end - write_start) (stats s5)\<rparr>))))))))"

lemma unat_add_write_size:
  "(b :: size_t) < bytes_to_write \<Longrightarrow> unat (b + write_size) = unat b + 16384"
  by (simp add: bytes_to_write_def write_size_def word_less_nat_alt unat_word_ariths)

lemma write_iteration_Continue_bytes:
  assumes "write_iteration e file (v, s) = Continue (v', s')"
  shows "write_bytes (stats s) < bytes_to_write
       \<and> write_bytes (stats s') = write_bytes (stats s) + write_size"
  using assms
  by (auto simp: write_iteration_def chThdShouldTerminate_def is_ready_def
      halGetCounterValue_def File_write_def account_write_def Let_def
      split: prod.splits if_splits File.splits)

function write_loop :: "env \<Rightarrow> File \<Rightarrow> lfsr_word_t \<times> sys \<Rightarrow> lfsr_word_t \<times> sys" where
  "write_loop e file st =
     (case write_iteration e file st of
        Continue st' \<Rightarrow> write_loop e file st'
      | Break st' \<Rightarrow> st')"
  by pat_completeness auto
termination
proof (relation "measure (\<lambda>(e, file, st). unat bytes_to_write - unat (write_bytes (stats (snd st))))")
  show "wf (measure (\<lambda>(e, file, st). unat bytes_to_write - unat (write_bytes (stats (snd st)))))"
    by simp
next
  fix e fl st st'
  assume c: "write_iteration e fl st = Continue st'"
  obtain v s where st: "st = (v, s)" by (cases st)
  obtain v' s' where st': "st' = (v', s')" by (cases st')
  from write_iteration_Continue_bytes[OF c[unfolded st st']]
  have lt: "write_bytes (stats s) < bytes_to_write"
    and eq: "write_bytes (stats s') = write_bytes (stats s) + write_size" by simp_all
  have "unat (write_bytes (stats s')) = unat (write_bytes (stats s)) + 16384"
    using unat_add_write_size[OF lt] eq by simp
  moreover have "unat (write_bytes (stats s)) < unat bytes_to_write"
    using lt by (simp add: word_less_nat_alt)
  ultimately show "((e, fl, st'), (e, fl, st))
      \<in> measure (\<lambda>(e, file, st). unat bytes_to_write - unat (write_bytes (stats (snd st))))"
    by (simp add: st st')
qed

declare write_loop.simps [simp del]

definition "write" :: "env \<Rightarrow> string \<Rightarrow> sys \<Rightarrow> Result \<times> sys" where
  "write e filename s =
     (case make_unique e s of (buffer, s1) \<Rightarrow>
      if \<not> buffer then (FailHeap, s1) else
      (case open_for_writing e filename s1 of (opened, file, s2) \<Rightarrow>
       if \<not> opened then (FailFileOpenWrite, File_destroy file s2) else
       (case halGetCounterValue e s2 of (test_start, s3) \<Rightarrow>
        (case write_loop e file (1, s3) of (v, s4) \<Rightarrow>
         (case File_close file s4 of (file1, s5) \<Rightarrow>
          (case halGetCounterValue e s5 of (test_end, s6) \<Rightarrow>
             (OK, File_destroy file1
                    (s6\<lparr>stats := (stats s6)\<lparr>write_test_duration := test_end - test_start\<rparr>\<rparr>))))))))"

subsection \<open>Read phase\<close>

text \<open>The bookkeeping after a successful \<^verbatim>\<open>file.read\<close> (lines 195 to 204).\<close>

definition account_read :: "halrtcnt_t \<Rightarrow> Stats \<Rightarrow> Stats" where
  "account_read read_duration st =
     (let st1 = st\<lparr>read_bytes := read_bytes st + write_size,
                   read_count := read_count st + 1\<rparr>;
          st2 = (if read_duration_min st1 = 0 \<or> read_duration < read_duration_min st1
                 then st1\<lparr>read_duration_min := read_duration\<rparr> else st1)
      in (if read_duration > read_duration_max st2
          then st2\<lparr>read_duration_max := read_duration\<rparr> else st2))"

text \<open>
  The \<^verbatim>\<open>while\<close> of \<^verbatim>\<open>read\<close> has a third way out: \<^verbatim>\<open>return Result::FailCompare\<close>
  from inside the body, which skips the code after the loop.
\<close>

datatype 'a read_flow = Read_Continue 'a | Read_Break 'a | Read_Return Result 'a

definition read_iteration ::
  "env \<Rightarrow> lfsr_word_t \<times> File \<times> sys \<Rightarrow> (lfsr_word_t \<times> File \<times> sys) read_flow" where
  "read_iteration e st =
     (case st of (v, file, s) \<Rightarrow>
      (case chThdShouldTerminate e s of (stop, s1) \<Rightarrow>
       if stop then Read_Break (v, file, s1) else
       (case is_ready e file s1 of (rdy, s2) \<Rightarrow>
        if \<not> rdy then Read_Break (v, file, s2) else
        if \<not> read_bytes (stats s2) < bytes_to_read then Read_Break (v, file, s2) else
        (case halGetCounterValue e s2 of (read_start, s3) \<Rightarrow>
         (case File_read e file buffer_words s3 of (got, buffer, file1, s4) \<Rightarrow>
          if \<not> got then Read_Break (v, file1, s4) else
          (case halGetCounterValue e s4 of (read_end, s5) \<Rightarrow>
           (case lfsr_compare (lfsr_advance e) v buffer buffer_words of (v1, matched) \<Rightarrow>
            if \<not> matched
            then Read_Return FailCompare
                   (v1, file1, s5\<lparr>stats := account_read (read_end - read_start) (stats s5)\<rparr>)
            else Read_Continue
                   (v1, file1, s5\<lparr>stats := account_read (read_end - read_start) (stats s5)\<rparr>))))))))"

lemma read_iteration_Continue_bytes:
  assumes "read_iteration e (v, file, s) = Read_Continue (v', file', s')"
  shows "read_bytes (stats s) < bytes_to_read
       \<and> read_bytes (stats s') = read_bytes (stats s) + write_size"
  using assms
  by (auto simp: read_iteration_def chThdShouldTerminate_def is_ready_def
      halGetCounterValue_def File_read_def account_read_def Let_def
      split: prod.splits if_splits File.splits option.splits)

function read_loop ::
  "env \<Rightarrow> lfsr_word_t \<times> File \<times> sys \<Rightarrow> Result option \<times> lfsr_word_t \<times> File \<times> sys" where
  "read_loop e st =
     (case read_iteration e st of
        Read_Continue st' \<Rightarrow> read_loop e st'
      | Read_Break st' \<Rightarrow> (None, st')
      | Read_Return r st' \<Rightarrow> (Some r, st'))"
  by pat_completeness auto
termination
proof (relation "measure (\<lambda>(e, st). unat bytes_to_read - unat (read_bytes (stats (snd (snd st)))))")
  show "wf (measure (\<lambda>(e, st). unat bytes_to_read - unat (read_bytes (stats (snd (snd st))))))"
    by simp
next
  fix e st st'
  assume c: "read_iteration e st = Read_Continue st'"
  obtain v fl s where st: "st = (v, fl, s)" by (cases st)
  obtain v' fl' s' where st': "st' = (v', fl', s')" by (cases st')
  from read_iteration_Continue_bytes[OF c[unfolded st st']]
  have lt: "read_bytes (stats s) < bytes_to_write"
    and eq: "read_bytes (stats s') = read_bytes (stats s) + write_size"
    by (simp_all add: bytes_to_read_def)
  have "unat (read_bytes (stats s')) = unat (read_bytes (stats s)) + 16384"
    using unat_add_write_size[OF lt] eq by simp
  moreover have "unat (read_bytes (stats s)) < unat bytes_to_read"
    using lt by (simp add: word_less_nat_alt bytes_to_read_def)
  ultimately show "((e, st'), (e, st))
      \<in> measure (\<lambda>(e, st). unat bytes_to_read - unat (read_bytes (stats (snd (snd st)))))"
    by (simp add: st st')
qed

declare read_loop.simps [simp del]

definition read :: "env \<Rightarrow> string \<Rightarrow> sys \<Rightarrow> Result \<times> sys" where
  "read e filename s =
     (case make_unique e s of (buffer, s1) \<Rightarrow>
      if \<not> buffer then (FailHeap, s1) else
      (case open_for_reading e filename s1 of (opened, file, s2) \<Rightarrow>
       if \<not> opened then (FailFileOpenRead, File_destroy file s2) else
       (case halGetCounterValue e s2 of (test_start, s3) \<Rightarrow>
        (case read_loop e (1, file, s3) of (returned, v, file1, s4) \<Rightarrow>
         (case returned of
            Some r \<Rightarrow> (r, File_destroy file1 s4)
          | None \<Rightarrow>
              (case File_close file1 s4 of (file2, s5) \<Rightarrow>
               (case halGetCounterValue e s5 of (test_end, s6) \<Rightarrow>
                  (OK, File_destroy file2
                         (s6\<lparr>stats := (stats s6)\<lparr>read_test_duration := test_end - test_start\<rparr>\<rparr>)))))))))"

subsection \<open>Orchestration\<close>

definition filename :: string where
  "filename = ''_PPTEST_.DAT''"

definition run :: "env \<Rightarrow> sys \<Rightarrow> Result \<times> sys" where
  "run e s =
     (case write e filename s of (write_result, s1) \<Rightarrow>
      if write_result \<noteq> OK then (write_result, s1) else
      if write_bytes (stats s1) < bytes_to_write then (FailWriteIncomplete, s1) else
      (case chThdShouldTerminate e s1 of (stop, s2) \<Rightarrow>
       if stop then (FailAbort, s2) else
       (case read e filename s2 of (read_result, s3) \<Rightarrow>
        if read_result \<noteq> OK then (read_result, s3) else
        (let s4 = f_unlink filename s3 in
         if read_bytes (stats s4) < bytes_to_read then (FailReadIncomplete, s4) else
         (case chThdShouldTerminate e s4 of (stop2, s5) \<Rightarrow>
          if stop2 then (FailAbort, s5) else (OK, s5))))))"

section \<open>Vocabulary of the proofs\<close>

text \<open>
  Projections of the statistics by direction, the parts of the state a loop leaves
  alone, the loop invariants, the straight-line code around the loops, and a few
  concrete environments and cards on which the theorems are instantiated.
\<close>

definition write_stats_of :: "Stats \<Rightarrow> halrtcnt_t \<times> halrtcnt_t \<times> halrtcnt_t \<times> size_t \<times> size_t" where
  "write_stats_of st = (write_duration_min st, write_duration_max st, write_test_duration st,
     write_bytes st, write_count st)"

definition read_stats_of :: "Stats \<Rightarrow> halrtcnt_t \<times> halrtcnt_t \<times> halrtcnt_t \<times> size_t \<times> size_t" where
  "read_stats_of st = (read_duration_min st, read_duration_max st, read_test_duration st,
     read_bytes st, read_count st)"

definition write_frame :: "sys \<Rightarrow> sys \<Rightarrow> bool" where
  "write_frame s s' \<longleftrightarrow>
     open_handles s' = open_handles s \<and> allocs s' = allocs s \<and> opens_w s' = opens_w s \<and>
     opens_r s' = opens_r s \<and> reads s' = reads s \<and> unlinks s' = unlinks s \<and>
     read_stats_of (stats s') = read_stats_of (stats s)"

definition read_frame :: "File \<times> sys \<Rightarrow> File \<times> sys \<Rightarrow> bool" where
  "read_frame a b \<longleftrightarrow>
     (case a of (fl, s) \<Rightarrow> case b of (fl', s') \<Rightarrow>
     (fl' = NotOpen) = (fl = NotOpen) \<and>
     open_handles s' = open_handles s \<and> allocs s' = allocs s \<and> opens_w s' = opens_w s \<and>
     opens_r s' = opens_r s \<and> writes s' = writes s \<and> unlinks s' = unlinks s \<and>
     files s' = files s \<and> write_stats_of (stats s') = write_stats_of (stats s))"

definition write_inv ::
  "env \<Rightarrow> string \<Rightarrow> nat \<Rightarrow> sys \<Rightarrow> lfsr_word_t \<Rightarrow> lfsr_word_t list \<Rightarrow> lfsr_word_t \<times> sys \<Rightarrow> bool" where
  "write_inv e fn k s v0 c0 st =
     (case st of (v', s') \<Rightarrow>
       unat (write_count (stats s')) \<le> k \<and>
       unat (write_bytes (stats s')) = unat (write_count (stats s')) * 16384 \<and>
       polls s' = polls s + unat (write_count (stats s')) \<and>
       readies s' = readies s + unat (write_count (stats s')) \<and>
       writes s' = writes s + unat (write_count (stats s')) \<and>
       v' = fst (lfsr_fill (lfsr_advance e) v0 (unat (write_count (stats s')) * buffer_words)) \<and>
       files s' fn = Some (c0 @ snd (lfsr_fill (lfsr_advance e) v0
                                   (unat (write_count (stats s')) * buffer_words))))"

definition write_post :: "env \<Rightarrow> string \<Rightarrow> nat \<Rightarrow> sys \<Rightarrow> lfsr_word_t \<Rightarrow> lfsr_word_t list \<Rightarrow> lfsr_word_t \<times> sys \<Rightarrow> bool" where
  "write_post e fn k s v0 c0 st =
     (case st of (v', s') \<Rightarrow>
       unat (write_count (stats s')) = k \<and>
       unat (write_bytes (stats s')) = k * 16384 \<and>
       polls s' = Suc (polls s + k) \<and>
       files s' fn = Some (c0 @ snd (lfsr_fill (lfsr_advance e) v0 (k * buffer_words))))"

definition read_inv ::
  "env \<Rightarrow> string \<Rightarrow> nat \<Rightarrow> sys \<Rightarrow> lfsr_word_t \<Rightarrow> lfsr_word_t list
     \<Rightarrow> lfsr_word_t \<times> File \<times> sys \<Rightarrow> bool" where
  "read_inv e fn k s v0 c st =
     (case st of (v', fl', s') \<Rightarrow>
       unat (read_count (stats s')) \<le> k \<and>
       unat (read_bytes (stats s')) = unat (read_count (stats s')) * 16384 \<and>
       polls s' = polls s + unat (read_count (stats s')) \<and>
       readies s' = readies s + unat (read_count (stats s')) \<and>
       reads s' = reads s + unat (read_count (stats s')) \<and>
       v' = fst (lfsr_fill (lfsr_advance e) v0 (unat (read_count (stats s')) * buffer_words)) \<and>
       fl' = OpenForReading fn (unat (read_count (stats s')) * buffer_words) \<and>
       files s' fn = Some c)"

definition read_post ::
  "nat \<Rightarrow> sys \<Rightarrow> Result option \<times> lfsr_word_t \<times> File \<times> sys \<Rightarrow> bool" where
  "read_post k s r =
     (case r of (returned, v', fl', s') \<Rightarrow>
       returned = None \<and>
       unat (read_count (stats s')) = k \<and>
       unat (read_bytes (stats s')) = k * 16384 \<and>
       polls s' = Suc (polls s + k))"

definition write_begin :: "string \<Rightarrow> sys \<Rightarrow> sys" where
  "write_begin fn s = s\<lparr>allocs := Suc (allocs s), opens_w := Suc (opens_w s),
     files := (files s)(fn \<mapsto> []), open_handles := Suc (open_handles s),
     ticks := Suc (ticks s)\<rparr>"

definition write_finish :: "env \<Rightarrow> nat \<Rightarrow> sys \<Rightarrow> sys" where
  "write_finish e t0 s4 = s4\<lparr>open_handles := open_handles s4 - 1, ticks := Suc (ticks s4),
     stats := (stats s4)\<lparr>write_test_duration :=
                   counter_reading e (ticks s4) - counter_reading e t0\<rparr>\<rparr>"

definition read_begin :: "sys \<Rightarrow> sys" where
  "read_begin s = s\<lparr>allocs := Suc (allocs s), opens_r := Suc (opens_r s),
     open_handles := Suc (open_handles s), ticks := Suc (ticks s)\<rparr>"

definition read_finish :: "env \<Rightarrow> nat \<Rightarrow> sys \<Rightarrow> sys" where
  "read_finish e t0 s4 = s4\<lparr>open_handles := open_handles s4 - 1, ticks := Suc (ticks s4),
     stats := (stats s4)\<lparr>read_test_duration :=
                   counter_reading e (ticks s4) - counter_reading e t0\<rparr>\<rparr>"

definition bytes_match_count :: "size_t \<Rightarrow> size_t \<Rightarrow> bool" where
  "bytes_match_count b c \<longleftrightarrow> unat b = unat c * unat write_size"

definition counter_increasing :: "(nat \<Rightarrow> halrtcnt_t) \<Rightarrow> nat \<Rightarrow> bool" where
  "counter_increasing C t0 \<longleftrightarrow> (\<forall>i j. t0 \<le> i \<and> i < j \<and> j \<le> t0 + 2050 \<longrightarrow> C i < C j)"

definition timing_inv ::
  "(nat \<Rightarrow> halrtcnt_t) \<Rightarrow> nat \<Rightarrow> size_t \<Rightarrow> size_t \<Rightarrow> halrtcnt_t \<Rightarrow> nat \<Rightarrow> bool" where
  "timing_inv C t0 cnt byt mn tk \<longleftrightarrow>
     unat byt = unat cnt * 16384 \<and> unat cnt \<le> 1024 \<and>
     tk = t0 + 1 + 2 * unat cnt \<and> (cnt = 0 \<or> mn \<noteq> 0) \<and>
     unat cnt * unat mn \<le> unat (C (t0 + 2 * unat cnt)) - unat (C t0)"

definition timing_post :: "(nat \<Rightarrow> halrtcnt_t) \<Rightarrow> nat \<Rightarrow> size_t \<Rightarrow> size_t \<Rightarrow> halrtcnt_t \<Rightarrow> nat \<Rightarrow> bool" where
  "timing_post C t0 cnt byt mn tk' \<longleftrightarrow>
     (\<exists>tk. timing_inv C t0 cnt byt mn tk \<and> (tk' = tk \<or> tk' = Suc tk))"

definition example_advance :: lfsr_advance_t where
  "example_advance v =
     (let v1 = (if bit v 0 then drop_bit 1 v XOR 0x80200003 else drop_bit 1 v) in (v1, v1))"

definition faultless :: env where
  "faultless =
     \<lparr> lfsr_advance = example_advance,
       terminate_requested = (\<lambda>n. False),
       counter_reading = (\<lambda>n. of_nat n),
       heap_ok = (\<lambda>n. True),
       open_write_ok = (\<lambda>n. True),
       open_read_ok = (\<lambda>n. True),
       ready_ok = (\<lambda>n. True),
       write_ok = (\<lambda>n. True),
       read_ok = (\<lambda>n. True),
       read_damage = (\<lambda>n xs. xs) \<rparr>"

definition cancel_after_first_chunk :: env where
  "cancel_after_first_chunk = faultless\<lparr>terminate_requested := (\<lambda>n. 1 \<le> n)\<rparr>"

definition one_chunk_card :: "string \<rightharpoonup> lfsr_word_t list" where
  "one_chunk_card = [filename \<mapsto> snd (lfsr_fill example_advance 1 buffer_words)]"

definition garbling :: env where
  "garbling = faultless\<lparr>read_damage := (\<lambda>n xs. [])\<rparr>"

definition write_fails_at :: "nat \<Rightarrow> env" where
  "write_fails_at k = faultless\<lparr>write_ok := (\<lambda>n. n \<noteq> k)\<rparr>"

definition read_alloc_fails :: env where
  "read_alloc_fails = faultless\<lparr>heap_ok := (\<lambda>n. n = 0)\<rparr>"

definition read_open_fails :: env where
  "read_open_fails = faultless\<lparr>open_read_ok := (\<lambda>n. False)\<rparr>"

definition first_read_fails :: env where
  "first_read_fails = faultless\<lparr>read_ok := (\<lambda>n. False)\<rparr>"

section \<open>Lemmas\<close>

subsection \<open>The pattern oracle\<close>

lemma lfsr_compare_fill:
  "lfsr_compare adv s (snd (lfsr_fill adv s n)) n = (fst (lfsr_fill adv s n), True)"
  by (induction n arbitrary: s) (simp_all add: split_beta)

lemma length_lfsr_fill: "length (snd (lfsr_fill adv s n)) = n"
  by (induction n arbitrary: s) (simp_all add: split_beta)

lemmas prim_defs = chThdShouldTerminate_def is_ready_def halGetCounterValue_def
  File_write_def File_read_def File_close_def File_destroy_def make_unique_def
  open_for_writing_def open_for_reading_def f_unlink_def

subsection \<open>Loop rules\<close>

text \<open>
  A loop is left by the first iteration that does not continue; a property that every
  continuing iteration preserves holds for what the loop returns.
\<close>

lemma write_loop_Break:
  "write_iteration e fl st = Break st' \<Longrightarrow> write_loop e fl st = st'"
  by (simp add: write_loop.simps)

lemma write_loop_Continue:
  "write_iteration e fl st = Continue st' \<Longrightarrow> write_loop e fl st = write_loop e fl st'"
  by (subst write_loop.simps) simp

lemma write_loop_rule:
  assumes "P st"
    and "\<And>a b. P a \<Longrightarrow> write_iteration e fl a = Continue b \<Longrightarrow> P b"
    and "\<And>a b. P a \<Longrightarrow> write_iteration e fl a = Break b \<Longrightarrow> Q b"
  shows "Q (write_loop e fl st)"
  using assms
proof (induction e fl st rule: write_loop.induct)
  case (1 e fl st)
  show ?case
  proof (cases "write_iteration e fl st")
    case (Continue b)
    have "P b" using "1.prems"(2)[OF "1.prems"(1) Continue] .
    then have "Q (write_loop e fl b)"
      using "1.IH"[OF Continue] "1.prems"(2,3) by blast
    then show ?thesis by (simp add: write_loop_Continue[OF Continue])
  next
    case (Break b)
    have "Q b" using "1.prems"(3)[OF "1.prems"(1) Break] .
    then show ?thesis by (simp add: write_loop_Break[OF Break])
  qed
qed

lemma write_iteration_ContinueE:
  assumes "write_iteration e fl (v, s) = Continue (v', s')"
  obtains p where "fl = OpenForWriting p"
    and "\<not> terminate_requested e (polls s)" and "ready_ok e (readies s)"
    and "write_ok e (writes s)" and "write_bytes (stats s) < bytes_to_write"
    and "v' = fst (lfsr_fill (lfsr_advance e) v buffer_words)"
    and "s' = s\<lparr>polls := Suc (polls s), readies := Suc (readies s),
                 ticks := Suc (Suc (ticks s)), writes := Suc (writes s),
                 files := (files s)(p \<mapsto> (case files s p of None \<Rightarrow> [] | Some c \<Rightarrow> c)
                      @ snd (lfsr_fill (lfsr_advance e) v buffer_words)),
                 stats := account_write (counter_reading e (Suc (ticks s)) - counter_reading e (ticks s)) (stats s)\<rparr>"
  using assms
  by (auto simp: write_iteration_def prim_defs split: prod.splits if_splits File.splits)

lemma write_iteration_BreakE:
  assumes "write_iteration e fl (v, s) = Break (v', s')"
  obtains "terminate_requested e (polls s)" and "v' = v" and "s' = s\<lparr>polls := Suc (polls s)\<rparr>"
  | "\<not> terminate_requested e (polls s)" and "v' = v"
    and "\<not> (fl \<noteq> NotOpen \<and> ready_ok e (readies s)) \<or> \<not> write_bytes (stats s) < bytes_to_write"
    and "s' = s\<lparr>polls := Suc (polls s), readies := Suc (readies s)\<rparr>"
  | "\<not> terminate_requested e (polls s)" and "ready_ok e (readies s)"
    and "write_bytes (stats s) < bytes_to_write"
    and "\<not> (\<exists>p. fl = OpenForWriting p \<and> write_ok e (writes s))"
    and "v' = fst (lfsr_fill (lfsr_advance e) v buffer_words)"
    and "s' = s\<lparr>polls := Suc (polls s), readies := Suc (readies s),
                 ticks := Suc (ticks s), writes := Suc (writes s)\<rparr>"
  using assms
  by (auto simp: write_iteration_def prim_defs split: prod.splits if_splits File.splits)

lemma read_loop_Break:
  "read_iteration e st = Read_Break st' \<Longrightarrow> read_loop e st = (None, st')"
  by (simp add: read_loop.simps)

lemma read_loop_Return:
  "read_iteration e st = Read_Return r st' \<Longrightarrow> read_loop e st = (Some r, st')"
  by (simp add: read_loop.simps)

lemma read_loop_Continue:
  "read_iteration e st = Read_Continue st' \<Longrightarrow> read_loop e st = read_loop e st'"
  by (subst read_loop.simps) simp

lemma read_loop_rule:
  assumes "P st"
    and "\<And>a b. P a \<Longrightarrow> read_iteration e a = Read_Continue b \<Longrightarrow> P b"
    and "\<And>a b. P a \<Longrightarrow> read_iteration e a = Read_Break b \<Longrightarrow> Q (None, b)"
    and "\<And>a b r. P a \<Longrightarrow> read_iteration e a = Read_Return r b \<Longrightarrow> Q (Some r, b)"
  shows "Q (read_loop e st)"
  using assms
proof (induction e st rule: read_loop.induct)
  case (1 e st)
  show ?case
  proof (cases "read_iteration e st")
    case (Read_Continue b)
    have "P b" using "1.prems"(2)[OF "1.prems"(1) Read_Continue] .
    then have "Q (read_loop e b)"
      using "1.IH"[OF Read_Continue] "1.prems"(2,3,4) by blast
    then show ?thesis by (simp add: read_loop_Continue[OF Read_Continue])
  next
    case (Read_Break b)
    have "Q (None, b)" using "1.prems"(3)[OF "1.prems"(1) Read_Break] .
    then show ?thesis by (simp add: read_loop_Break[OF Read_Break])
  next
    case (Read_Return r b)
    have "Q (Some r, b)" using "1.prems"(4)[OF "1.prems"(1) Read_Return] .
    then show ?thesis by (simp add: read_loop_Return[OF Read_Return])
  qed
qed

lemma read_iteration_ContinueE:
  assumes "read_iteration e (v, fl, s) = Read_Continue (v', fl', s')"
  obtains p pos c where "fl = OpenForReading p pos" and "files s p = Some c"
    and "\<not> terminate_requested e (polls s)" and "ready_ok e (readies s)"
    and "read_ok e (reads s)" and "pos + buffer_words \<le> length c"
    and "read_bytes (stats s) < bytes_to_read"
    and "lfsr_compare (lfsr_advance e) v
           (read_damage e (reads s) (take buffer_words (drop pos c))) buffer_words = (v', True)"
    and "fl' = OpenForReading p (pos + buffer_words)"
    and "s' = s\<lparr>polls := Suc (polls s), readies := Suc (readies s),
                 ticks := Suc (Suc (ticks s)), reads := Suc (reads s),
                 stats := account_read (counter_reading e (Suc (ticks s)) - counter_reading e (ticks s)) (stats s)\<rparr>"
  using assms
  by (auto simp: read_iteration_def prim_defs
      split: prod.splits if_splits File.splits option.splits)

lemma read_iteration_ReturnE:
  assumes "read_iteration e (v, fl, s) = Read_Return r (v', fl', s')"
  obtains p pos c where "fl = OpenForReading p pos" and "files s p = Some c"
    and "\<not> terminate_requested e (polls s)" and "ready_ok e (readies s)"
    and "read_ok e (reads s)" and "pos + buffer_words \<le> length c"
    and "read_bytes (stats s) < bytes_to_read"
    and "lfsr_compare (lfsr_advance e) v
           (read_damage e (reads s) (take buffer_words (drop pos c))) buffer_words = (v', False)"
    and "fl' = OpenForReading p (pos + buffer_words)" and "r = FailCompare"
    and "s' = s\<lparr>polls := Suc (polls s), readies := Suc (readies s),
                 ticks := Suc (Suc (ticks s)), reads := Suc (reads s),
                 stats := account_read (counter_reading e (Suc (ticks s)) - counter_reading e (ticks s)) (stats s)\<rparr>"
  using assms
  by (auto simp: read_iteration_def prim_defs
      split: prod.splits if_splits File.splits option.splits)

lemma read_iteration_BreakE:
  assumes "read_iteration e (v, fl, s) = Read_Break (v', fl', s')"
  obtains "terminate_requested e (polls s)" and "v' = v" and "fl' = fl"
    and "s' = s\<lparr>polls := Suc (polls s)\<rparr>"
  | "\<not> terminate_requested e (polls s)" and "v' = v" and "fl' = fl"
    and "\<not> (fl \<noteq> NotOpen \<and> ready_ok e (readies s)) \<or> \<not> read_bytes (stats s) < bytes_to_read"
    and "s' = s\<lparr>polls := Suc (polls s), readies := Suc (readies s)\<rparr>"
  | "\<not> terminate_requested e (polls s)" and "ready_ok e (readies s)"
    and "read_bytes (stats s) < bytes_to_read" and "v' = v" and "fl' = fl"
    and "\<not> (\<exists>p pos c. fl = OpenForReading p pos \<and> files s p = Some c
             \<and> read_ok e (reads s) \<and> pos + buffer_words \<le> length c)"
    and "s' = s\<lparr>polls := Suc (polls s), readies := Suc (readies s),
                 ticks := Suc (ticks s), reads := Suc (reads s)\<rparr>"
  using assms
  by (auto simp: read_iteration_def prim_defs
      split: prod.splits if_splits File.splits option.splits)

lemma read_stats_of_account_write [simp]:
  "read_stats_of (account_write d st) = read_stats_of st"
  by (simp add: read_stats_of_def account_write_def Let_def)

lemma write_stats_of_account_read [simp]:
  "write_stats_of (account_read d st) = write_stats_of st"
  by (simp add: write_stats_of_def account_read_def Let_def)

lemma write_loop_frame: "write_frame s (snd (write_loop e fl (v, s)))"
proof (rule write_loop_rule[where P = "\<lambda>st. write_frame s (snd st)"])
  show "write_frame s (snd (v, s))" by (simp add: write_frame_def)
next
  fix a b :: "lfsr_word_t \<times> sys"
  assume "write_frame s (snd a)" "write_iteration e fl a = Continue b"
  then show "write_frame s (snd b)"
    by (cases a, cases b) (auto simp: write_frame_def elim!: write_iteration_ContinueE)
next
  fix a b :: "lfsr_word_t \<times> sys"
  assume "write_frame s (snd a)" "write_iteration e fl a = Break b"
  then show "write_frame s (snd b)"
    by (cases a, cases b) (auto simp: write_frame_def elim!: write_iteration_BreakE)
qed

lemma read_loop_frame: "read_frame (fl, s) (snd (snd (read_loop e (v, fl, s))))"
proof (rule read_loop_rule[where P = "\<lambda>st. read_frame (fl, s) (snd st)"
      and Q = "\<lambda>r. read_frame (fl, s) (snd (snd r))"])
  show "read_frame (fl, s) (snd (v, fl, s))" by (simp add: read_frame_def)
next
  fix a b :: "lfsr_word_t \<times> File \<times> sys"
  assume "read_frame (fl, s) (snd a)" "read_iteration e a = Read_Continue b"
  then show "read_frame (fl, s) (snd b)"
    by (cases a, cases b) (auto simp: read_frame_def elim!: read_iteration_ContinueE)
next
  fix a b :: "lfsr_word_t \<times> File \<times> sys"
  assume "read_frame (fl, s) (snd a)" "read_iteration e a = Read_Break b"
  then show "read_frame (fl, s) (snd (snd (None :: Result option, b)))"
    by (cases a, cases b) (auto simp: read_frame_def elim!: read_iteration_BreakE)
next
  fix a b :: "lfsr_word_t \<times> File \<times> sys" and r
  assume "read_frame (fl, s) (snd a)" "read_iteration e a = Read_Return r b"
  then show "read_frame (fl, s) (snd (snd (Some r, b)))"
    by (cases a, cases b) (auto simp: read_frame_def elim!: read_iteration_ReturnE)
qed

lemma write_phase_frame:
  "open_handles (snd (write e fn s)) = open_handles s \<and>
   allocs (snd (write e fn s)) = Suc (allocs s) \<and>
   opens_r (snd (write e fn s)) = opens_r s \<and>
   reads (snd (write e fn s)) = reads s \<and>
   unlinks (snd (write e fn s)) = unlinks s \<and>
   read_stats_of (stats (snd (write e fn s))) = read_stats_of (stats s)"
proof (cases "heap_ok e (allocs s) \<and> open_write_ok e (opens_w s)")
  case False
  then show ?thesis
    by (auto simp: write_def prim_defs)
next
  case True
  define s3 where "s3 = s\<lparr>allocs := Suc (allocs s), opens_w := Suc (opens_w s),
     files := (files s)(fn \<mapsto> []), open_handles := Suc (open_handles s),
     ticks := Suc (ticks s)\<rparr>"
  have fr: "write_frame s3 (snd (write_loop e (OpenForWriting fn) (1, s3)))"
    by (rule write_loop_frame)
  have w: "write e fn s =
     (case write_loop e (OpenForWriting fn) (1, s3) of (v, s4) \<Rightarrow>
        (OK, s4\<lparr>open_handles := open_handles s4 - 1, ticks := Suc (ticks s4),
                stats := (stats s4)\<lparr>write_test_duration :=
                   counter_reading e (ticks s4) - counter_reading e (ticks s)\<rparr>\<rparr>))"
    using True by (simp add: write_def prim_defs s3_def split_beta)
  show ?thesis
    using fr unfolding w
    by (simp add: split_beta write_frame_def s3_def read_stats_of_def)
qed

lemma write_result_cases:
  "fst (write e fn s) = FailHeap \<or> fst (write e fn s) = FailFileOpenWrite \<or> fst (write e fn s) = OK"
  by (simp add: write_def prim_defs split_beta)

lemma read_result_cases:
  "fst (read e fn s) = FailHeap \<or> fst (read e fn s) = FailFileOpenRead
   \<or> fst (read e fn s) = FailCompare \<or> fst (read e fn s) = OK"
proof -
  have "\<And>st. fst (read_loop e st) = None \<or> fst (read_loop e st) = Some FailCompare"
  proof -
    fix st
    show "fst (read_loop e st) = None \<or> fst (read_loop e st) = Some FailCompare"
      by (rule read_loop_rule[where P = "\<lambda>_. True"
            and Q = "\<lambda>r. fst r = None \<or> fst r = Some FailCompare"])
         (auto elim!: read_iteration_ReturnE)
  qed
  note L = this
  show ?thesis
  proof (cases "heap_ok e (allocs s) \<and> open_read_ok e (opens_r s) \<and> files s fn \<noteq> None")
    case False
    then show ?thesis by (auto simp: read_def prim_defs)
  next
    case True
    define st where "st = (1 :: lfsr_word_t, OpenForReading fn 0,
      s\<lparr>allocs := Suc (allocs s), opens_r := Suc (opens_r s),
        open_handles := Suc (open_handles s), ticks := Suc (ticks s)\<rparr>)"
    have "fst (read e fn s) = (case fst (read_loop e st) of Some r \<Rightarrow> r | None \<Rightarrow> OK)"
      using True by (simp add: read_def prim_defs split_beta st_def split: option.splits)
    with L[of st] show ?thesis by auto
  qed
qed

lemma read_phase_frame:
  "open_handles (snd (read e fn s)) = open_handles s \<and>
   allocs (snd (read e fn s)) = Suc (allocs s) \<and>
   opens_w (snd (read e fn s)) = opens_w s \<and>
   writes (snd (read e fn s)) = writes s \<and>
   unlinks (snd (read e fn s)) = unlinks s \<and>
   files (snd (read e fn s)) = files s \<and>
   write_stats_of (stats (snd (read e fn s))) = write_stats_of (stats s)"
proof (cases "heap_ok e (allocs s) \<and> open_read_ok e (opens_r s) \<and> files s fn \<noteq> None")
  case False
  then show ?thesis
    by (auto simp: read_def prim_defs)
next
  case True
  define s3 where "s3 = s\<lparr>allocs := Suc (allocs s), opens_r := Suc (opens_r s),
     open_handles := Suc (open_handles s), ticks := Suc (ticks s)\<rparr>"
  have fr: "read_frame (OpenForReading fn 0, s3) (snd (snd (read_loop e (1, OpenForReading fn 0, s3))))"
    by (rule read_loop_frame)
  have w: "read e fn s =
     (case read_loop e (1, OpenForReading fn 0, s3) of (returned, v, file1, s4) \<Rightarrow>
        (case returned of
           Some r \<Rightarrow> (r, File_destroy file1 s4)
         | None \<Rightarrow> (OK, (snd (File_close file1 s4))\<lparr>ticks := Suc (ticks s4),
                stats := (stats s4)\<lparr>read_test_duration :=
                   counter_reading e (ticks s4) - counter_reading e (ticks s)\<rparr>\<rparr>)))"
    using True by (auto simp add: read_def prim_defs s3_def split_beta split: option.splits)
  show ?thesis
    using fr unfolding w
    by (auto simp add: split_beta read_frame_def s3_def write_stats_of_def prim_defs split: option.splits)
qed

subsection \<open>Chunks of the generated stream\<close>

lemma lfsr_fill_add:
  "lfsr_fill adv v (a + b) =
     (fst (lfsr_fill adv (fst (lfsr_fill adv v a)) b),
      snd (lfsr_fill adv v a) @ snd (lfsr_fill adv (fst (lfsr_fill adv v a)) b))"
  by (induction a arbitrary: v) (simp_all add: split_beta)

lemma lfsr_fill_Suc_chunk:
  "lfsr_fill adv v (Suc n * w) =
     (fst (lfsr_fill adv (fst (lfsr_fill adv v (n * w))) w),
      snd (lfsr_fill adv v (n * w)) @ snd (lfsr_fill adv (fst (lfsr_fill adv v (n * w))) w))"
  using lfsr_fill_add[of adv v "n * w" w] by (simp add: add.commute)

subsection \<open>Bytes and counts\<close>

lemma write_bytes_account_write [simp]:
  "write_bytes (account_write d st) = write_bytes st + write_size"
  by (simp add: account_write_def Let_def)

lemma write_count_account_write [simp]:
  "write_count (account_write d st) = write_count st + 1"
  by (simp add: account_write_def Let_def)

lemma read_bytes_account_read [simp]:
  "read_bytes (account_read d st) = read_bytes st + write_size"
  by (simp add: account_read_def Let_def)

lemma read_count_account_read [simp]:
  "read_count (account_read d st) = read_count st + 1"
  by (simp add: account_read_def Let_def)

lemma unat_count_Suc:
  "unat (c :: size_t) < 1024 \<Longrightarrow> unat (c + 1) = Suc (unat c)"
  by (simp add: unat_word_ariths)

lemma bytes_count_step:
  assumes "(b :: size_t) < bytes_to_write" and "unat b = unat (c :: size_t) * 16384"
  shows "unat c < 1024 \<and> unat (b + write_size) = unat (c + 1) * 16384"
proof -
  have "unat b < 16777216"
    using assms(1) by (simp add: word_less_nat_alt bytes_to_write_def)
  then have c: "unat c < 1024" using assms(2) by simp
  then show ?thesis
    using unat_add_write_size[OF assms(1)] assms(2) by (simp add: unat_count_Suc)
qed

lemma write_loop_exact:
  assumes fresh: "write_count (stats s) = 0" "write_bytes (stats s) = 0"
    and c0: "files s fn = Some c0"
    and k: "k \<le> 1024"
    and good: "\<And>i. i < k \<Longrightarrow> \<not> terminate_requested e (polls s + i) \<and>
                 ready_ok e (readies s + i) \<and> write_ok e (writes s + i)"
    and stop: "k = 1024 \<or> terminate_requested e (polls s + k) \<or>
               \<not> ready_ok e (readies s + k) \<or> \<not> write_ok e (writes s + k)"
  shows "write_post e fn k s v0 c0 (write_loop e (OpenForWriting fn) (v0, s))"
proof (rule write_loop_rule[where P = "write_inv e fn k s v0 c0"])
  show "write_inv e fn k s v0 c0 (v0, s)"
    using fresh c0 by (simp add: write_inv_def)
next
  fix a b :: "lfsr_word_t \<times> sys"
  assume inv: "write_inv e fn k s v0 c0 a"
    and it: "write_iteration e (OpenForWriting fn) a = Continue b"
  obtain v1 s1 where a: "a = (v1, s1)" by (cases a)
  obtain v2 s2 where b: "b = (v2, s2)" by (cases b)
  define n where "n = unat (write_count (stats s1))"
  from inv have i: "n \<le> k" "unat (write_bytes (stats s1)) = n * 16384"
    "polls s1 = polls s + n" "readies s1 = readies s + n" "writes s1 = writes s + n"
    "v1 = fst (lfsr_fill (lfsr_advance e) v0 (n * buffer_words))"
    "files s1 fn = Some (c0 @ snd (lfsr_fill (lfsr_advance e) v0 (n * buffer_words)))"
    by (simp_all add: write_inv_def a n_def)
  from it[unfolded a b] show "write_inv e fn k s v0 c0 b"
  proof (rule write_iteration_ContinueE)
    fix p
    assume p: "OpenForWriting fn = OpenForWriting p"
      and nt: "\<not> terminate_requested e (polls s1)" and rd: "ready_ok e (readies s1)"
      and wo: "write_ok e (writes s1)" and lt: "write_bytes (stats s1) < bytes_to_write"
      and v2: "v2 = fst (lfsr_fill (lfsr_advance e) v1 buffer_words)"
      and s2: "s2 = s1\<lparr>polls := Suc (polls s1), readies := Suc (readies s1),
                 ticks := Suc (Suc (ticks s1)), writes := Suc (writes s1),
                 files := (files s1)(p \<mapsto> (case files s1 p of None \<Rightarrow> [] | Some c \<Rightarrow> c)
                      @ snd (lfsr_fill (lfsr_advance e) v1 buffer_words)),
                 stats := account_write (counter_reading e (Suc (ticks s1)) - counter_reading e (ticks s1)) (stats s1)\<rparr>"
    from bytes_count_step[OF lt] i(2)
    have st: "n < 1024" "unat (write_bytes (stats s1) + write_size) = unat (write_count (stats s1) + 1) * 16384"
      by (simp_all add: n_def)
    have n1: "unat (write_count (stats s1) + 1) = Suc n"
      using st(1) by (simp add: unat_count_Suc n_def)
    have "n \<noteq> k"
    proof
      assume "n = k"
      with stop nt rd wo i(3,4,5) st(1) show False by auto
    qed
    with i(1) have "Suc n \<le> k" by simp
    then show ?thesis
      using p st(2) n1 i(3-7) v2
      by (simp add: write_inv_def b s2 lfsr_fill_Suc_chunk del: mult_Suc)
  qed
next
  fix a b :: "lfsr_word_t \<times> sys"
  assume inv: "write_inv e fn k s v0 c0 a"
    and it: "write_iteration e (OpenForWriting fn) a = Break b"
  obtain v1 s1 where a: "a = (v1, s1)" by (cases a)
  obtain v2 s2 where b: "b = (v2, s2)" by (cases b)
  define n where "n = unat (write_count (stats s1))"
  from inv have i: "n \<le> k" "unat (write_bytes (stats s1)) = n * 16384"
    "polls s1 = polls s + n" "readies s1 = readies s + n" "writes s1 = writes s + n"
    "v1 = fst (lfsr_fill (lfsr_advance e) v0 (n * buffer_words))"
    "files s1 fn = Some (c0 @ snd (lfsr_fill (lfsr_advance e) v0 (n * buffer_words)))"
    by (simp_all add: write_inv_def a n_def)
  have lt: "n < k \<Longrightarrow> write_bytes (stats s1) < bytes_to_write"
    using i(2) k by (simp add: word_less_nat_alt bytes_to_write_def)
  from it[unfolded a b] have "n = k \<and> polls s2 = Suc (polls s1) \<and> stats s2 = stats s1
      \<and> files s2 = files s1"
  proof (rule write_iteration_BreakE)
    assume "terminate_requested e (polls s1)" "s2 = s1\<lparr>polls := Suc (polls s1)\<rparr>"
    then show ?thesis using good[of n] i(1,3) by (cases "n < k") auto
  next
    assume "\<not> terminate_requested e (polls s1)"
      "\<not> (OpenForWriting fn \<noteq> NotOpen \<and> ready_ok e (readies s1)) \<or> \<not> write_bytes (stats s1) < bytes_to_write"
      "s2 = s1\<lparr>polls := Suc (polls s1), readies := Suc (readies s1)\<rparr>"
    then show ?thesis using good[of n] i(1,4) lt by (cases "n < k") auto
  next
    assume "\<not> (\<exists>p. OpenForWriting fn = OpenForWriting p \<and> write_ok e (writes s1))"
      "s2 = s1\<lparr>polls := Suc (polls s1), readies := Suc (readies s1),
                 ticks := Suc (ticks s1), writes := Suc (writes s1)\<rparr>"
    then show ?thesis using good[of n] i(1,5) by (cases "n < k") auto
  qed
  then show "write_post e fn k s v0 c0 b"
    using i by (simp add: write_post_def b n_def)
qed

lemma lfsr_fill_chunk:
  assumes "i < m"
  shows "take w (drop (i * w) (snd (lfsr_fill adv v (m * w))))
       = snd (lfsr_fill adv (fst (lfsr_fill adv v (i * w))) w)"
proof -
  have m: "m * w = i * w + (w + (m - Suc i) * w)"
  proof -
    have "m = i + (1 + (m - Suc i))" using assms by simp
    then have "m * w = (i + (1 + (m - Suc i))) * w" by simp
    then show ?thesis by (simp only: add_mult_distrib mult_1)
  qed
  show ?thesis
    unfolding m
    by (simp add: lfsr_fill_add[of adv v "i * w"] lfsr_fill_add[of adv _ w] length_lfsr_fill)
qed

lemma read_loop_exact:
  assumes fresh: "read_count (stats s) = 0" "read_bytes (stats s) = 0"
    and c: "files s fn = Some c"
    and k: "k \<le> 1024"
    and good: "\<And>i. i < k \<Longrightarrow> \<not> terminate_requested e (polls s + i) \<and>
                 ready_ok e (readies s + i) \<and> read_ok e (reads s + i) \<and>
                 Suc i * buffer_words \<le> length c \<and>
                 read_damage e (reads s + i) (take buffer_words (drop (i * buffer_words) c))
                   = snd (lfsr_fill (lfsr_advance e)
                           (fst (lfsr_fill (lfsr_advance e) v0 (i * buffer_words))) buffer_words)"
    and stop: "k = 1024 \<or> terminate_requested e (polls s + k) \<or>
               \<not> ready_ok e (readies s + k) \<or> \<not> read_ok e (reads s + k) \<or>
               length c < Suc k * buffer_words"
  shows "read_post k s (read_loop e (v0, OpenForReading fn 0, s))"
proof (rule read_loop_rule[where P = "read_inv e fn k s v0 c"])
  show "read_inv e fn k s v0 c (v0, OpenForReading fn 0, s)"
    using fresh c by (simp add: read_inv_def)
next
  fix a b :: "lfsr_word_t \<times> File \<times> sys"
  assume inv: "read_inv e fn k s v0 c a"
    and it: "read_iteration e a = Read_Continue b"
  obtain v1 f1 s1 where a: "a = (v1, f1, s1)" by (cases a)
  obtain v2 f2 s2 where b: "b = (v2, f2, s2)" by (cases b)
  define n where "n = unat (read_count (stats s1))"
  from inv have i: "n \<le> k" "unat (read_bytes (stats s1)) = n * 16384"
    "polls s1 = polls s + n" "readies s1 = readies s + n" "reads s1 = reads s + n"
    "v1 = fst (lfsr_fill (lfsr_advance e) v0 (n * buffer_words))"
    "f1 = OpenForReading fn (n * buffer_words)"
    "files s1 fn = Some c"
    by (simp_all add: read_inv_def a n_def)
  from it[unfolded a b] show "read_inv e fn k s v0 c b"
  proof (rule read_iteration_ContinueE)
    fix p pos c'
    assume f1: "f1 = OpenForReading p pos" and c': "files s1 p = Some c'"
      and nt: "\<not> terminate_requested e (polls s1)" and rd: "ready_ok e (readies s1)"
      and ro: "read_ok e (reads s1)" and len: "pos + buffer_words \<le> length c'"
      and lt: "read_bytes (stats s1) < bytes_to_read"
      and cmp: "lfsr_compare (lfsr_advance e) v1
           (read_damage e (reads s1) (take buffer_words (drop pos c'))) buffer_words = (v2, True)"
      and f2: "f2 = OpenForReading p (pos + buffer_words)"
      and s2: "s2 = s1\<lparr>polls := Suc (polls s1), readies := Suc (readies s1),
                 ticks := Suc (Suc (ticks s1)), reads := Suc (reads s1),
                 stats := account_read (counter_reading e (Suc (ticks s1)) - counter_reading e (ticks s1)) (stats s1)\<rparr>"
    have pp: "p = fn" "pos = n * buffer_words" "c' = c"
      using f1 i(7) c' i(8) by simp_all
    from bytes_count_step[OF lt[unfolded bytes_to_read_def]] i(2)
    have st: "n < 1024" "unat (read_bytes (stats s1) + write_size) = unat (read_count (stats s1) + 1) * 16384"
      by (simp_all add: n_def)
    have n1: "unat (read_count (stats s1) + 1) = Suc n"
      using st(1) by (simp add: unat_count_Suc n_def)
    have "n \<noteq> k"
    proof
      assume "n = k"
      with stop nt rd ro i(3,4,5) st(1) len pp show False by auto
    qed
    with i(1) have nk: "n < k" by simp
    have "lfsr_compare (lfsr_advance e) v1
           (read_damage e (reads s1) (take buffer_words (drop pos c'))) buffer_words
        = (fst (lfsr_fill (lfsr_advance e) v1 buffer_words), True)"
      using good[OF nk] by (simp add: pp i(5,6) lfsr_compare_fill)
    with cmp have v2: "v2 = fst (lfsr_fill (lfsr_advance e) v1 buffer_words)" by simp
    show ?thesis
      using nk st(2) n1 i(3-8) v2 pp f2
      by (simp add: read_inv_def b s2 lfsr_fill_Suc_chunk del: mult_Suc) (simp add: add.commute)
  qed
next
  fix a b :: "lfsr_word_t \<times> File \<times> sys" and r
  assume inv: "read_inv e fn k s v0 c a"
    and it: "read_iteration e a = Read_Return r b"
  obtain v1 f1 s1 where a: "a = (v1, f1, s1)" by (cases a)
  obtain v2 f2 s2 where b: "b = (v2, f2, s2)" by (cases b)
  define n where "n = unat (read_count (stats s1))"
  from inv have i: "n \<le> k" "unat (read_bytes (stats s1)) = n * 16384"
    "polls s1 = polls s + n" "readies s1 = readies s + n" "reads s1 = reads s + n"
    "v1 = fst (lfsr_fill (lfsr_advance e) v0 (n * buffer_words))"
    "f1 = OpenForReading fn (n * buffer_words)"
    "files s1 fn = Some c"
    by (simp_all add: read_inv_def a n_def)
  from it[unfolded a b] have False
  proof (rule read_iteration_ReturnE)
    fix p pos c'
    assume f1: "f1 = OpenForReading p pos" and c': "files s1 p = Some c'"
      and nt: "\<not> terminate_requested e (polls s1)" and rd: "ready_ok e (readies s1)"
      and ro: "read_ok e (reads s1)" and len: "pos + buffer_words \<le> length c'"
      and lt: "read_bytes (stats s1) < bytes_to_read"
      and cmp: "lfsr_compare (lfsr_advance e) v1
           (read_damage e (reads s1) (take buffer_words (drop pos c'))) buffer_words = (v2, False)"
    have pp: "p = fn" "pos = n * buffer_words" "c' = c"
      using f1 i(7) c' i(8) by simp_all
    from bytes_count_step[OF lt[unfolded bytes_to_read_def]] i(2)
    have st: "n < 1024" by (simp_all add: n_def)
    have "n \<noteq> k"
    proof
      assume "n = k"
      with stop nt rd ro i(3,4,5) st(1) len pp show False by auto
    qed
    with i(1) have nk: "n < k" by simp
    have "lfsr_compare (lfsr_advance e) v1
           (read_damage e (reads s1) (take buffer_words (drop pos c'))) buffer_words
        = (fst (lfsr_fill (lfsr_advance e) v1 buffer_words), True)"
      using good[OF nk] by (simp add: pp i(5,6) lfsr_compare_fill)
    with cmp show False by simp
  qed
  then show "read_post k s (Some r, b)" ..
next
  fix a b :: "lfsr_word_t \<times> File \<times> sys"
  assume inv: "read_inv e fn k s v0 c a"
    and it: "read_iteration e a = Read_Break b"
  obtain v1 f1 s1 where a: "a = (v1, f1, s1)" by (cases a)
  obtain v2 f2 s2 where b: "b = (v2, f2, s2)" by (cases b)
  define n where "n = unat (read_count (stats s1))"
  from inv have i: "n \<le> k" "unat (read_bytes (stats s1)) = n * 16384"
    "polls s1 = polls s + n" "readies s1 = readies s + n" "reads s1 = reads s + n"
    "v1 = fst (lfsr_fill (lfsr_advance e) v0 (n * buffer_words))"
    "f1 = OpenForReading fn (n * buffer_words)"
    "files s1 fn = Some c"
    by (simp_all add: read_inv_def a n_def)
  have lt: "n < k \<Longrightarrow> read_bytes (stats s1) < bytes_to_read"
    using i(2) k by (simp add: word_less_nat_alt bytes_to_write_def bytes_to_read_def)
  from it[unfolded a b] have "n = k \<and> polls s2 = Suc (polls s1) \<and> stats s2 = stats s1"
  proof (rule read_iteration_BreakE)
    assume "terminate_requested e (polls s1)" "s2 = s1\<lparr>polls := Suc (polls s1)\<rparr>"
    then show ?thesis using good[of n] i(1,3) by (cases "n < k") auto
  next
    assume "\<not> terminate_requested e (polls s1)"
      "\<not> (f1 \<noteq> NotOpen \<and> ready_ok e (readies s1)) \<or> \<not> read_bytes (stats s1) < bytes_to_read"
      "s2 = s1\<lparr>polls := Suc (polls s1), readies := Suc (readies s1)\<rparr>"
    then show ?thesis using good[of n] i(1,4,7) lt by (cases "n < k") auto
  next
    assume "\<not> (\<exists>p pos c. f1 = OpenForReading p pos \<and> files s1 p = Some c
             \<and> read_ok e (reads s1) \<and> pos + buffer_words \<le> length c)"
      "s2 = s1\<lparr>polls := Suc (polls s1), readies := Suc (readies s1),
                 ticks := Suc (ticks s1), reads := Suc (reads s1)\<rparr>"
    then show ?thesis using good[of n] i(1,5,7,8) by (cases "n < k") (auto simp: add.commute)
  qed
  then show "read_post k s (None, b)"
    using i by (simp add: read_post_def b n_def)
qed

lemma write_unfold:
  assumes "heap_ok e (allocs s)" and "open_write_ok e (opens_w s)"
  shows "write e fn s =
     (OK, write_finish e (ticks s) (snd (write_loop e (OpenForWriting fn) (1, write_begin fn s))))"
  using assms by (simp add: write_def prim_defs write_begin_def write_finish_def split_beta)

lemma read_unfold:
  assumes "heap_ok e (allocs s)" and "open_read_ok e (opens_r s)" and "files s fn \<noteq> None"
    and "fst (read_loop e (1, OpenForReading fn 0, read_begin s)) = None"
  shows "read e fn s =
     (OK, read_finish e (ticks s) (snd (snd (snd (read_loop e (1, OpenForReading fn 0, read_begin s))))))"
proof -
  have "fst (snd (snd (read_loop e (1, OpenForReading fn 0, read_begin s)))) \<noteq> NotOpen"
    using read_loop_frame[of "OpenForReading fn 0" "read_begin s" e 1]
    by (simp add: read_frame_def split_beta)
  then show ?thesis
    using assms
    by (simp add: read_def prim_defs read_begin_def read_finish_def split_beta)
qed

lemma write_phase_exact:
  assumes heap: "heap_ok e (allocs s)" and opn: "open_write_ok e (opens_w s)"
    and fresh: "write_count (stats s) = 0" "write_bytes (stats s) = 0"
    and k: "k \<le> 1024"
    and good: "\<And>i. i < k \<Longrightarrow> \<not> terminate_requested e (polls s + i) \<and>
                 ready_ok e (readies s + i) \<and> write_ok e (writes s + i)"
    and stop: "k = 1024 \<or> terminate_requested e (polls s + k) \<or>
               \<not> ready_ok e (readies s + k) \<or> \<not> write_ok e (writes s + k)"
  shows "fst (write e fn s) = OK \<and>
         unat (write_count (stats (snd (write e fn s)))) = k \<and>
         unat (write_bytes (stats (snd (write e fn s)))) = k * 16384 \<and>
         polls (snd (write e fn s)) = Suc (polls s + k) \<and>
         files (snd (write e fn s)) fn
           = Some (snd (lfsr_fill (lfsr_advance e) 1 (k * buffer_words)))"
proof -
  have "write_post e fn k (write_begin fn s) 1 []
          (write_loop e (OpenForWriting fn) (1, write_begin fn s))"
    by (rule write_loop_exact) (use fresh k good stop in \<open>simp_all add: write_begin_def\<close>)
  then show ?thesis
    unfolding write_unfold[OF heap opn]
    by (simp add: write_post_def split_beta write_finish_def write_begin_def)
qed

lemma read_phase_exact:
  assumes heap: "heap_ok e (allocs s)" and opn: "open_read_ok e (opens_r s)"
    and fresh: "read_count (stats s) = 0" "read_bytes (stats s) = 0"
    and c: "files s fn = Some c"
    and k: "k \<le> 1024"
    and good: "\<And>i. i < k \<Longrightarrow> \<not> terminate_requested e (polls s + i) \<and>
                 ready_ok e (readies s + i) \<and> read_ok e (reads s + i) \<and>
                 Suc i * buffer_words \<le> length c \<and>
                 read_damage e (reads s + i) (take buffer_words (drop (i * buffer_words) c))
                   = snd (lfsr_fill (lfsr_advance e)
                           (fst (lfsr_fill (lfsr_advance e) 1 (i * buffer_words))) buffer_words)"
    and stop: "k = 1024 \<or> terminate_requested e (polls s + k) \<or>
               \<not> ready_ok e (readies s + k) \<or> \<not> read_ok e (reads s + k) \<or>
               length c < Suc k * buffer_words"
  shows "fst (read e fn s) = OK \<and>
         unat (read_count (stats (snd (read e fn s)))) = k \<and>
         unat (read_bytes (stats (snd (read e fn s)))) = k * 16384 \<and>
         polls (snd (read e fn s)) = Suc (polls s + k)"
proof -
  have post: "read_post k (read_begin s) (read_loop e (1, OpenForReading fn 0, read_begin s))"
    by (rule read_loop_exact[where c = c])
       (use fresh c k good stop in \<open>simp_all add: read_begin_def\<close>)
  then have none: "fst (read_loop e (1, OpenForReading fn 0, read_begin s)) = None"
    by (simp add: read_post_def split_beta)
  have f: "files s fn \<noteq> None" using c by simp
  show ?thesis
    using post unfolding read_unfold[OF heap opn f none]
    by (simp add: read_post_def split_beta read_finish_def read_begin_def)
qed

subsection \<open>Runs from a fresh thread object\<close>

lemma sys_init_simps [simp]:
  "stats (sys_init fs) = Stats_init" "polls (sys_init fs) = 0" "ticks (sys_init fs) = 0"
  "allocs (sys_init fs) = 0" "opens_w (sys_init fs) = 0" "opens_r (sys_init fs) = 0"
  "readies (sys_init fs) = 0" "writes (sys_init fs) = 0" "reads (sys_init fs) = 0"
  "unlinks (sys_init fs) = 0" "files (sys_init fs) = fs" "open_handles (sys_init fs) = 0"
  by (simp_all add: sys_init_def)

lemma Stats_init_simps [simp]:
  "write_duration_min Stats_init = 0" "write_duration_max Stats_init = 0"
  "write_test_duration Stats_init = 0" "write_bytes Stats_init = 0" "write_count Stats_init = 0"
  "read_duration_min Stats_init = 0" "read_duration_max Stats_init = 0"
  "read_test_duration Stats_init = 0" "read_bytes Stats_init = 0" "read_count Stats_init = 0"
  by (simp_all add: Stats_init_def)

lemma run_read_incomplete:
  assumes "fst (run e s) = FailReadIncomplete \<or> fst (run e s) = OK"
  shows "files (snd (run e s)) filename = None \<and> unlinks (snd (run e s)) = Suc (unlinks s)"
proof -
  define s1 where "s1 = snd (write e filename s)"
  define s2 where "s2 = s1\<lparr>polls := Suc (polls s1)\<rparr>"
  define s3 where "s3 = snd (read e filename s2)"
  have u1: "unlinks s1 = unlinks s"
    using write_phase_frame[of e filename s] by (simp add: s1_def)
  have u3: "unlinks s3 = unlinks s2"
    using read_phase_frame[of e filename s2] by (simp add: s3_def)
  have u2: "unlinks s2 = unlinks s1" by (simp add: s2_def)
  from assms write_result_cases[of e filename s] read_result_cases[of e filename s2]
  have "snd (run e s) = f_unlink filename s3
      \<or> snd (run e s) = (f_unlink filename s3)\<lparr>polls := Suc (polls (f_unlink filename s3))\<rparr>"
    by (auto simp: run_def split_beta chThdShouldTerminate_def Let_def s1_def s2_def s3_def
        split: if_splits)
  then show ?thesis
    using u1 u2 u3 by (auto simp: f_unlink_def)
qed

lemma run_write_fault:
  assumes heap: "heap_ok e 0" and opn: "open_write_ok e 0"
    and k: "k < 1024" and bad: "\<not> write_ok e k"
  shows "fst (run e (sys_init fs)) = FailWriteIncomplete \<and>
         unat (write_count (stats (snd (run e (sys_init fs))))) \<le> k \<and>
         allocs (snd (run e (sys_init fs))) = 1 \<and>
         opens_r (snd (run e (sys_init fs))) = 0 \<and>
         reads (snd (run e (sys_init fs))) = 0 \<and>
         read_stats_of (stats (snd (run e (sys_init fs)))) = (0, 0, 0, 0, 0)"
proof -
  define s0 where "s0 = write_begin filename (sys_init fs)"
  define P where "P = (\<lambda>st :: lfsr_word_t \<times> sys.
     writes (snd st) = unat (write_count (stats (snd st))) \<and>
     unat (write_bytes (stats (snd st))) = unat (write_count (stats (snd st))) * 16384 \<and>
     unat (write_count (stats (snd st))) \<le> k)"
  define Q where "Q = (\<lambda>st :: lfsr_word_t \<times> sys.
     unat (write_bytes (stats (snd st))) = unat (write_count (stats (snd st))) * 16384 \<and>
     unat (write_count (stats (snd st))) \<le> k)"
  have "Q (write_loop e (OpenForWriting filename) (1, s0))"
  proof (rule write_loop_rule[where P = P])
    show "P (1, s0)" by (simp add: P_def s0_def write_begin_def)
  next
    fix a b :: "lfsr_word_t \<times> sys"
    assume inv: "P a" and it: "write_iteration e (OpenForWriting filename) a = Continue b"
    obtain v1 s1 where a: "a = (v1, s1)" by (cases a)
    obtain v2 s2 where b: "b = (v2, s2)" by (cases b)
    from it[unfolded a b] show "P b"
    proof (rule write_iteration_ContinueE)
      fix p
      assume wo: "write_ok e (writes s1)" and lt: "write_bytes (stats s1) < bytes_to_write"
        and s2: "s2 = s1\<lparr>polls := Suc (polls s1), readies := Suc (readies s1),
                 ticks := Suc (Suc (ticks s1)), writes := Suc (writes s1),
                 files := (files s1)(p \<mapsto> (case files s1 p of None \<Rightarrow> [] | Some c \<Rightarrow> c)
                      @ snd (lfsr_fill (lfsr_advance e) v1 buffer_words)),
                 stats := account_write (counter_reading e (Suc (ticks s1)) - counter_reading e (ticks s1)) (stats s1)\<rparr>"
      from inv have i: "writes s1 = unat (write_count (stats s1))"
        "unat (write_bytes (stats s1)) = unat (write_count (stats s1)) * 16384"
        "unat (write_count (stats s1)) \<le> k" by (simp_all add: P_def a)
      from bytes_count_step[OF lt i(2)]
      have st: "unat (write_count (stats s1)) < 1024"
        "unat (write_bytes (stats s1) + write_size) = unat (write_count (stats s1) + 1) * 16384"
        by simp_all
      have "unat (write_count (stats s1)) \<noteq> k" using wo bad i(1) by auto
      then show ?thesis
        using i st by (simp add: P_def b s2 unat_count_Suc)
    qed
  next
    fix a b :: "lfsr_word_t \<times> sys"
    assume inv: "P a" and it: "write_iteration e (OpenForWriting filename) a = Break b"
    then show "Q b"
      by (cases a, cases b) (auto simp: P_def Q_def elim!: write_iteration_BreakE)
  qed
  then have cnt: "unat (write_count (stats (snd (write e filename (sys_init fs))))) \<le> k"
    and byt: "unat (write_bytes (stats (snd (write e filename (sys_init fs)))))
        = unat (write_count (stats (snd (write e filename (sys_init fs))))) * 16384"
    using heap opn by (simp_all add: write_unfold Q_def s0_def write_finish_def)
  have lt: "write_bytes (stats (snd (write e filename (sys_init fs)))) < bytes_to_write"
    using cnt byt k by (simp add: word_less_nat_alt bytes_to_write_def)
  have ok: "fst (write e filename (sys_init fs)) = OK"
    using heap opn by (simp add: write_unfold)
  have run: "run e (sys_init fs) = (FailWriteIncomplete, snd (write e filename (sys_init fs)))"
    using ok lt by (simp add: run_def split_beta)
  show ?thesis
    using cnt write_phase_frame[of e filename "sys_init fs"]
    by (simp add: run read_stats_of_def)
qed

lemma run_cancelled_in_write:
  assumes heap: "heap_ok e 0" and opn: "open_write_ok e 0"
    and k: "k < 1024"
    and good: "\<forall>i<k. \<not> terminate_requested e i \<and> ready_ok e i \<and> write_ok e i"
    and cancel: "terminate_requested e k"
  shows "fst (run e (sys_init fs)) = FailWriteIncomplete \<and>
         unat (write_count (stats (snd (run e (sys_init fs))))) = k \<and>
         unat (write_bytes (stats (snd (run e (sys_init fs))))) = k * 16384 \<and>
         allocs (snd (run e (sys_init fs))) = 1 \<and>
         opens_r (snd (run e (sys_init fs))) = 0 \<and>
         reads (snd (run e (sys_init fs))) = 0 \<and>
         read_stats_of (stats (snd (run e (sys_init fs)))) = (0, 0, 0, 0, 0)"
proof -
  have w: "fst (write e filename (sys_init fs)) = OK \<and>
         unat (write_count (stats (snd (write e filename (sys_init fs))))) = k \<and>
         unat (write_bytes (stats (snd (write e filename (sys_init fs))))) = k * 16384 \<and>
         polls (snd (write e filename (sys_init fs))) = Suc (polls (sys_init fs) + k) \<and>
         files (snd (write e filename (sys_init fs))) filename
           = Some (snd (lfsr_fill (lfsr_advance e) 1 (k * buffer_words)))"
    by (rule write_phase_exact) (use heap opn k good cancel in simp_all)
  have lt: "write_bytes (stats (snd (write e filename (sys_init fs)))) < bytes_to_write"
    using w k by (simp add: word_less_nat_alt bytes_to_write_def)
  have run: "run e (sys_init fs) = (FailWriteIncomplete, snd (write e filename (sys_init fs)))"
    using w lt by (simp add: run_def split_beta)
  show ?thesis
    using w write_phase_frame[of e filename "sys_init fs"]
    by (simp add: run read_stats_of_def)
qed

lemma unat_eq_1024: "unat (c :: size_t) = 1024 \<Longrightarrow> c = 1024"
  by (simp add: word_unat_eq_iff)

lemma not_lt_bytes_to_write:
  "unat (b :: size_t) = 1024 * 16384 \<Longrightarrow> \<not> b < bytes_to_write"
  by (simp add: word_less_nat_alt bytes_to_write_def)

lemma run_after_write:
  assumes "fst (write e filename s) = OK"
    and "\<not> write_bytes (stats (snd (write e filename s))) < bytes_to_write"
    and "\<not> terminate_requested e (polls (snd (write e filename s)))"
    and "s2 = (snd (write e filename s))\<lparr>polls := Suc (polls (snd (write e filename s)))\<rparr>"
  shows "run e s =
     (if fst (read e filename s2) \<noteq> OK then read e filename s2
      else if read_bytes (stats (snd (read e filename s2))) < bytes_to_read
      then (FailReadIncomplete, f_unlink filename (snd (read e filename s2)))
      else if terminate_requested e (polls (snd (read e filename s2)))
      then (FailAbort, (f_unlink filename (snd (read e filename s2)))
                          \<lparr>polls := Suc (polls (snd (read e filename s2)))\<rparr>)
      else (OK, (f_unlink filename (snd (read e filename s2)))
                          \<lparr>polls := Suc (polls (snd (read e filename s2)))\<rparr>))"
  using assms
  by (simp add: run_def split_beta chThdShouldTerminate_def Let_def f_unlink_def)

lemma run_success:
  assumes nt: "\<forall>i. \<not> terminate_requested e i" and heap: "\<forall>i. heap_ok e i"
    and ow: "\<forall>i. open_write_ok e i" and orr: "\<forall>i. open_read_ok e i"
    and rdy: "\<forall>i. ready_ok e i" and wok: "\<forall>i. write_ok e i" and rok: "\<forall>i. read_ok e i"
    and id: "\<forall>i xs. read_damage e i xs = xs"
  shows "fst (run e (sys_init fs)) = OK \<and>
         write_count (stats (snd (run e (sys_init fs)))) = 1024 \<and>
         read_count (stats (snd (run e (sys_init fs)))) = 1024 \<and>
         files (snd (run e (sys_init fs))) filename = None"
proof -
  define s1 where "s1 = snd (write e filename (sys_init fs))"
  define s2 where "s2 = s1\<lparr>polls := Suc (polls s1)\<rparr>"
  define c where "c = snd (lfsr_fill (lfsr_advance e) 1 (1024 * buffer_words))"
  have w: "fst (write e filename (sys_init fs)) = OK \<and>
         unat (write_count (stats s1)) = 1024 \<and>
         unat (write_bytes (stats s1)) = 1024 * 16384 \<and>
         polls s1 = Suc (polls (sys_init fs) + 1024) \<and>
         files s1 filename = Some c"
    unfolding s1_def c_def
    by (rule write_phase_exact) (use nt heap ow rdy wok in simp_all)
  have fr: "read_count (stats s2) = 0" "read_bytes (stats s2) = 0"
    using write_phase_frame[of e filename "sys_init fs"]
    by (simp_all add: s1_def s2_def read_stats_of_def)
  have r: "fst (read e filename s2) = OK \<and>
         unat (read_count (stats (snd (read e filename s2)))) = 1024 \<and>
         unat (read_bytes (stats (snd (read e filename s2)))) = 1024 * 16384 \<and>
         polls (snd (read e filename s2)) = Suc (polls s2 + 1024)"
  proof (rule read_phase_exact[where c = c])
    show "files s2 filename = Some c" using w by (simp add: s2_def)
  next
    fix i :: nat
    assume i: "i < 1024"
    have "Suc i * buffer_words \<le> length c"
      using i by (simp add: c_def length_lfsr_fill del: mult_Suc)
    moreover have "take buffer_words (drop (i * buffer_words) c)
                   = snd (lfsr_fill (lfsr_advance e)
                           (fst (lfsr_fill (lfsr_advance e) 1 (i * buffer_words))) buffer_words)"
      unfolding c_def using i by (rule lfsr_fill_chunk)
    ultimately show "\<not> terminate_requested e (polls s2 + i) \<and>
                 ready_ok e (readies s2 + i) \<and> read_ok e (reads s2 + i) \<and>
                 Suc i * buffer_words \<le> length c \<and>
                 read_damage e (reads s2 + i) (take buffer_words (drop (i * buffer_words) c))
                   = snd (lfsr_fill (lfsr_advance e)
                           (fst (lfsr_fill (lfsr_advance e) 1 (i * buffer_words))) buffer_words)"
      using nt rdy rok id by simp
  qed (use heap orr fr in simp_all)
  have wc: "write_count (stats (snd (read e filename s2))) = write_count (stats s1)"
    using read_phase_frame[of e filename s2] by (simp add: write_stats_of_def s2_def)
  have "run e (sys_init fs) =
     (if fst (read e filename s2) \<noteq> OK then read e filename s2
      else if read_bytes (stats (snd (read e filename s2))) < bytes_to_read
      then (FailReadIncomplete, f_unlink filename (snd (read e filename s2)))
      else if terminate_requested e (polls (snd (read e filename s2)))
      then (FailAbort, (f_unlink filename (snd (read e filename s2)))
                          \<lparr>polls := Suc (polls (snd (read e filename s2)))\<rparr>)
      else (OK, (f_unlink filename (snd (read e filename s2)))
                          \<lparr>polls := Suc (polls (snd (read e filename s2)))\<rparr>))"
  proof (rule run_after_write)
    show "fst (write e filename (sys_init fs)) = OK" using w by simp
    show "\<not> write_bytes (stats (snd (write e filename (sys_init fs)))) < bytes_to_write"
      using w not_lt_bytes_to_write[of "write_bytes (stats s1)"] by (simp add: s1_def)
    show "\<not> terminate_requested e (polls (snd (write e filename (sys_init fs))))"
      using nt by simp
    show "s2 = (snd (write e filename (sys_init fs)))
                 \<lparr>polls := Suc (polls (snd (write e filename (sys_init fs))))\<rparr>"
      by (simp add: s2_def s1_def)
  qed
  then have run: "run e (sys_init fs) =
      (OK, (f_unlink filename (snd (read e filename s2)))
             \<lparr>polls := Suc (polls (snd (read e filename s2)))\<rparr>)"
    using r nt not_lt_bytes_to_write[of "read_bytes (stats (snd (read e filename s2)))"]
    by (simp add: bytes_to_read_def)
  show ?thesis
    using w r wc by (simp add: run f_unlink_def unat_eq_1024)
qed

lemma write_full:
  assumes "heap_ok e 0" and "open_write_ok e 0"
    and "\<forall>i<1024. \<not> terminate_requested e i \<and> ready_ok e i \<and> write_ok e i"
  shows "fst (write e filename (sys_init fs)) = OK \<and>
         \<not> write_bytes (stats (snd (write e filename (sys_init fs)))) < bytes_to_write \<and>
         write_count (stats (snd (write e filename (sys_init fs)))) = 1024 \<and>
         polls (snd (write e filename (sys_init fs))) = 1025 \<and>
         files (snd (write e filename (sys_init fs))) filename
           = Some (snd (lfsr_fill (lfsr_advance e) 1 (1024 * buffer_words)))"
proof -
  have w: "fst (write e filename (sys_init fs)) = OK \<and>
         unat (write_count (stats (snd (write e filename (sys_init fs))))) = 1024 \<and>
         unat (write_bytes (stats (snd (write e filename (sys_init fs))))) = 1024 * 16384 \<and>
         polls (snd (write e filename (sys_init fs))) = Suc (polls (sys_init fs) + 1024) \<and>
         files (snd (write e filename (sys_init fs))) filename
           = Some (snd (lfsr_fill (lfsr_advance e) 1 (1024 * buffer_words)))"
    by (rule write_phase_exact) (use assms in simp_all)
  then show ?thesis
    using not_lt_bytes_to_write[of "write_bytes (stats (snd (write e filename (sys_init fs))))"]
    by (simp add: unat_eq_1024)
qed

lemma run_read_phase_fails:
  assumes w: "fst (write e filename (sys_init fs)) = OK"
    and full: "\<not> write_bytes (stats (snd (write e filename (sys_init fs)))) < bytes_to_write"
    and go: "\<not> terminate_requested e (polls (snd (write e filename (sys_init fs))))"
  shows "(\<not> heap_ok e 1 \<longrightarrow>
            fst (run e (sys_init fs)) = FailHeap \<and>
            read_stats_of (stats (snd (run e (sys_init fs)))) = (0, 0, 0, 0, 0)) \<and>
         (heap_ok e 1 \<and> \<not> open_read_ok e 0 \<longrightarrow>
            fst (run e (sys_init fs)) = FailFileOpenRead \<and>
            read_stats_of (stats (snd (run e (sys_init fs)))) = (0, 0, 0, 0, 0))"
proof -
  define s1 where "s1 = snd (write e filename (sys_init fs))"
  define s2 where "s2 = s1\<lparr>polls := Suc (polls s1)\<rparr>"
  have fr: "allocs s2 = 1" "opens_r s2 = 0" "read_stats_of (stats s2) = (0, 0, 0, 0, 0)"
    using write_phase_frame[of e filename "sys_init fs"]
    by (simp_all add: s1_def s2_def read_stats_of_def)
  have run: "fst (read e filename s2) \<noteq> OK \<Longrightarrow> run e (sys_init fs) = read e filename s2"
    using run_after_write[OF w full go, of s2] by (simp add: s2_def s1_def)
  have a: "\<not> heap_ok e 1 \<Longrightarrow> read e filename s2 = (FailHeap, s2\<lparr>allocs := Suc (allocs s2)\<rparr>)"
    using fr by (simp add: read_def prim_defs)
  have b: "heap_ok e 1 \<Longrightarrow> \<not> open_read_ok e 0 \<Longrightarrow>
      read e filename s2 = (FailFileOpenRead, s2\<lparr>allocs := Suc (allocs s2), opens_r := Suc (opens_r s2)\<rparr>)"
    using fr by (simp add: read_def prim_defs)
  show ?thesis
    using run a b fr by (auto simp: read_stats_of_def)
qed

subsection \<open>Duration extremes\<close>

lemma account_write_min_max:
  "write_duration_min (account_write d st)
     = (if write_duration_min st = 0 \<or> d < write_duration_min st then d else write_duration_min st)"
  "write_duration_max (account_write d st)
     = (if write_duration_max st < d then d else write_duration_max st)"
  by (simp_all add: account_write_def Let_def)

lemma account_read_min_max:
  "read_duration_min (account_read d st)
     = (if read_duration_min st = 0 \<or> d < read_duration_min st then d else read_duration_min st)"
  "read_duration_max (account_read d st)
     = (if read_duration_max st < d then d else read_duration_max st)"
  by (simp_all add: account_read_def Let_def)

lemma bytes_match_count_step:
  "b < bytes_to_write \<Longrightarrow> bytes_match_count b c \<Longrightarrow> bytes_match_count (b + write_size) (c + 1)"
  using bytes_count_step[of b c] by (simp add: bytes_match_count_def write_size_def)

lemma write_loop_bytes_count:
  assumes "bytes_match_count (write_bytes (stats s)) (write_count (stats s))"
  shows "bytes_match_count (write_bytes (stats (snd (write_loop e fl (v, s)))))
                           (write_count (stats (snd (write_loop e fl (v, s)))))"
proof (rule write_loop_rule[where
      P = "\<lambda>st. bytes_match_count (write_bytes (stats (snd st))) (write_count (stats (snd st)))"])
  show "bytes_match_count (write_bytes (stats (snd (v, s)))) (write_count (stats (snd (v, s))))"
    using assms by simp
next
  fix a b :: "lfsr_word_t \<times> sys"
  assume "bytes_match_count (write_bytes (stats (snd a))) (write_count (stats (snd a)))"
    "write_iteration e fl a = Continue b"
  then show "bytes_match_count (write_bytes (stats (snd b))) (write_count (stats (snd b)))"
    by (cases a, cases b) (auto elim!: write_iteration_ContinueE intro: bytes_match_count_step)
next
  fix a b :: "lfsr_word_t \<times> sys"
  assume "bytes_match_count (write_bytes (stats (snd a))) (write_count (stats (snd a)))"
    "write_iteration e fl a = Break b"
  then show "bytes_match_count (write_bytes (stats (snd b))) (write_count (stats (snd b)))"
    by (cases a, cases b) (auto elim!: write_iteration_BreakE)
qed

lemma read_loop_bytes_count:
  assumes "bytes_match_count (read_bytes (stats s)) (read_count (stats s))"
  shows "bytes_match_count (read_bytes (stats (snd (snd (snd (read_loop e (v, fl, s)))))))
                           (read_count (stats (snd (snd (snd (read_loop e (v, fl, s)))))))"
proof (rule read_loop_rule[where
      P = "\<lambda>st. bytes_match_count (read_bytes (stats (snd (snd st)))) (read_count (stats (snd (snd st))))"
      and Q = "\<lambda>r. bytes_match_count (read_bytes (stats (snd (snd (snd r))))) (read_count (stats (snd (snd (snd r)))))"])
  show "bytes_match_count (read_bytes (stats (snd (snd (v, fl, s))))) (read_count (stats (snd (snd (v, fl, s)))))"
    using assms by simp
next
  fix a b :: "lfsr_word_t \<times> File \<times> sys"
  assume "bytes_match_count (read_bytes (stats (snd (snd a)))) (read_count (stats (snd (snd a))))"
    "read_iteration e a = Read_Continue b"
  then show "bytes_match_count (read_bytes (stats (snd (snd b)))) (read_count (stats (snd (snd b))))"
    by (cases a, cases b)
       (auto elim!: read_iteration_ContinueE intro: bytes_match_count_step simp: bytes_to_read_def)
next
  fix a b :: "lfsr_word_t \<times> File \<times> sys"
  assume "bytes_match_count (read_bytes (stats (snd (snd a)))) (read_count (stats (snd (snd a))))"
    "read_iteration e a = Read_Break b"
  then show "bytes_match_count (read_bytes (stats (snd (snd (snd (None :: Result option, b))))))
     (read_count (stats (snd (snd (snd (None :: Result option, b))))))"
    by (cases a, cases b) (auto elim!: read_iteration_BreakE)
next
  fix a b :: "lfsr_word_t \<times> File \<times> sys" and r
  assume "bytes_match_count (read_bytes (stats (snd (snd a)))) (read_count (stats (snd (snd a))))"
    "read_iteration e a = Read_Return r b"
  then show "bytes_match_count (read_bytes (stats (snd (snd (snd (Some r, b))))))
     (read_count (stats (snd (snd (snd (Some r, b))))))"
    by (cases a, cases b)
       (auto elim!: read_iteration_ReturnE intro: bytes_match_count_step simp: bytes_to_read_def)
qed

lemma write_phase_bytes_count:
  assumes "bytes_match_count (write_bytes (stats s)) (write_count (stats s))"
  shows "bytes_match_count (write_bytes (stats (snd (write e fn s))))
                           (write_count (stats (snd (write e fn s))))"
proof (cases "heap_ok e (allocs s) \<and> open_write_ok e (opens_w s)")
  case False
  then show ?thesis using assms by (auto simp: write_def prim_defs)
next
  case True
  have "bytes_match_count (write_bytes (stats (write_begin fn s))) (write_count (stats (write_begin fn s)))"
    using assms by (simp add: write_begin_def)
  from write_loop_bytes_count[OF this, of e "OpenForWriting fn" 1]
  show ?thesis using True by (simp add: write_unfold write_finish_def)
qed

lemma read_phase_bytes_count:
  assumes "bytes_match_count (read_bytes (stats s)) (read_count (stats s))"
  shows "bytes_match_count (read_bytes (stats (snd (read e fn s))))
                           (read_count (stats (snd (read e fn s))))"
proof (cases "heap_ok e (allocs s) \<and> open_read_ok e (opens_r s) \<and> files s fn \<noteq> None")
  case False
  then show ?thesis using assms by (auto simp: read_def prim_defs)
next
  case True
  have "bytes_match_count (read_bytes (stats (read_begin s))) (read_count (stats (read_begin s)))"
    using assms by (simp add: read_begin_def)
  from read_loop_bytes_count[OF this, of e 1 "OpenForReading fn 0"]
  show ?thesis using True
    by (auto simp add: read_def prim_defs read_begin_def split_beta split: option.splits)
qed

subsection \<open>Minimum and average under an increasing counter\<close>

lemma min_avg_step:
  fixes n m dn A B C' D m' :: nat
  assumes "n * m \<le> B - A" and "A \<le> B" and "B \<le> C'" and "C' < D" and "dn = D - C'"
    and "n = 0 \<or> m \<noteq> 0" and "m' = (if m = 0 \<or> dn < m then dn else m)"
  shows "Suc n * m' \<le> D - A \<and> m' \<noteq> 0"
proof (cases "m = 0")
  case True
  then have "n = 0" "m' = dn" using assms(6,7) by simp_all
  then show ?thesis using assms(2-5) by simp
next
  case False
  then have le: "m' \<le> m" "m' \<le> dn" "m' \<noteq> 0" using assms(4,5,7) by auto
  have a: "n * m' \<le> n * m" using le(1) by (rule mult_le_mono2)
  have "Suc n * m' = n * m' + m'" by simp
  also have "\<dots> \<le> n * m + dn" using a le(2) by (rule add_mono)
  also have "\<dots> \<le> (B - A) + (D - C')" using assms(1,5) by simp
  also have "\<dots> \<le> D - A" using assms(2,3,4) by simp
  finally show ?thesis using le(3) by simp
qed

lemma counter_increasing_le:
  assumes "counter_increasing C t0" and "t0 \<le> i" and "i \<le> j" and "j \<le> t0 + 2050"
  shows "unat (C i) \<le> unat (C j)"
proof (cases "i = j")
  case True
  then show ?thesis by simp
next
  case False
  then have "C i < C j" using assms by (simp add: counter_increasing_def)
  then show ?thesis by (simp add: word_less_nat_alt)
qed

lemma counter_increasing_diff:
  assumes "counter_increasing C t0" and "t0 \<le> i" and "i \<le> j" and "j \<le> t0 + 2050"
  shows "unat (C j - C i) = unat (C j) - unat (C i)"
proof -
  have "C i \<le> C j"
    using counter_increasing_le[OF assms] by (simp add: word_le_nat_alt)
  then show ?thesis by (rule unat_sub)
qed

lemma timing_inv_step:
  assumes mono: "counter_increasing C t0"
    and inv: "timing_inv C t0 cnt byt mn tk"
    and lt: "byt < bytes_to_write"
    and mn': "mn' = (if mn = 0 \<or> C (Suc tk) - C tk < mn then C (Suc tk) - C tk else mn)"
  shows "timing_inv C t0 (cnt + 1) (byt + write_size) mn' (Suc (Suc tk))"
proof -
  define n where "n = unat cnt"
  from inv have i: "unat byt = n * 16384" "n \<le> 1024" "tk = t0 + 1 + 2 * n"
    "cnt = 0 \<or> mn \<noteq> 0" "n * unat mn \<le> unat (C (t0 + 2 * n)) - unat (C t0)"
    by (simp_all add: timing_inv_def n_def)
  from bytes_count_step[OF lt, of cnt] i(1)
  have st: "n < 1024" "unat (byt + write_size) = unat (cnt + 1) * 16384"
    by (simp_all add: n_def)
  have n1: "unat (cnt + 1) = Suc n" using st(1) by (simp add: unat_count_Suc n_def)
  have d: "unat (C (Suc tk) - C tk) = unat (C (Suc tk)) - unat (C tk)"
    by (rule counter_increasing_diff[OF mono]) (use i(3) st(1) in simp_all)
  have lt1: "unat (C tk) < unat (C (Suc tk))"
  proof -
    have "C tk < C (Suc tk)"
      using mono i(3) st(1) by (simp add: counter_increasing_def)
    then show ?thesis by (simp add: word_less_nat_alt)
  qed
  have l1: "unat (C t0) \<le> unat (C (t0 + 2 * n))"
    by (rule counter_increasing_le[OF mono]) (use st(1) in simp_all)
  have l2: "unat (C (t0 + 2 * n)) \<le> unat (C tk)"
    by (rule counter_increasing_le[OF mono]) (use i(3) st(1) in simp_all)
  have um: "unat mn' = (if unat mn = 0 \<or> unat (C (Suc tk) - C tk) < unat mn
                        then unat (C (Suc tk) - C tk) else unat mn)"
    by (simp add: mn' word_less_nat_alt unat_eq_0)
  have n0: "n = 0 \<or> unat mn \<noteq> 0"
    using i(4) by (auto simp: n_def unat_eq_0)
  from min_avg_step[OF i(5) l1 l2 lt1 d n0 um]
  have r: "Suc n * unat mn' \<le> unat (C (Suc tk)) - unat (C t0)" "unat mn' \<noteq> 0" by simp_all
  have tk2: "Suc tk = t0 + 2 * Suc n" using i(3) by simp
  have r': "unat (cnt + 1) * unat mn' \<le> unat (C (t0 + 2 * unat (cnt + 1))) - unat (C t0)"
    using r(1) by (simp only: n1 tk2[symmetric])
  have tk3: "Suc (Suc tk) = t0 + 1 + 2 * unat (cnt + 1)" using i(3) by (simp add: n1)
  have c1: "unat (cnt + 1) \<le> 1024" using st(1) by (simp add: n1)
  have nz: "mn' \<noteq> 0" using r(2) by (simp add: unat_eq_0)
  show ?thesis
    unfolding timing_inv_def using st(2) c1 tk3 nz r' by blast
qed

lemma timing_inv_final:
  assumes mono: "counter_increasing C t0"
    and inv: "timing_inv C t0 cnt byt mn tk"
    and tk': "tk' = tk \<or> tk' = Suc tk"
    and pos: "cnt \<noteq> 0"
  shows "mn \<le> (C tk' - C t0) div cnt"
proof -
  define n where "n = unat cnt"
  from inv have i: "n \<le> 1024" "tk = t0 + 1 + 2 * n"
    "n * unat mn \<le> unat (C (t0 + 2 * n)) - unat (C t0)"
    by (simp_all add: timing_inv_def n_def)
  have n0: "0 < n" using pos by (simp add: n_def unat_gt_0)
  have b: "t0 \<le> tk'" "tk' \<le> t0 + 2050" "t0 + 2 * n \<le> tk'"
    using tk' i(1,2) by auto
  have d: "unat (C tk' - C t0) = unat (C tk') - unat (C t0)"
    by (rule counter_increasing_diff[OF mono]) (use b in simp_all)
  have "unat (C (t0 + 2 * n)) \<le> unat (C tk')"
    by (rule counter_increasing_le[OF mono]) (use b in simp_all)
  then have "unat mn * n \<le> unat (C tk' - C t0)"
    using i(3) d by (simp add: mult.commute)
  then have "unat mn \<le> unat (C tk' - C t0) div n"
    using n0 by (simp add: less_eq_div_iff_mult_less_eq)
  then show ?thesis
    by (simp add: word_le_nat_alt unat_div n_def)
qed

lemma write_loop_timing:
  assumes mono: "counter_increasing (counter_reading e) t0"
    and inv: "timing_inv (counter_reading e) t0 (write_count (stats s)) (write_bytes (stats s))
                (write_duration_min (stats s)) (ticks s)"
  shows "timing_post (counter_reading e) t0
           (write_count (stats (snd (write_loop e fl (v, s)))))
           (write_bytes (stats (snd (write_loop e fl (v, s)))))
           (write_duration_min (stats (snd (write_loop e fl (v, s)))))
           (ticks (snd (write_loop e fl (v, s))))"
proof (rule write_loop_rule[where
      P = "\<lambda>st. timing_inv (counter_reading e) t0 (write_count (stats (snd st)))
             (write_bytes (stats (snd st))) (write_duration_min (stats (snd st))) (ticks (snd st))"])
  show "timing_inv (counter_reading e) t0 (write_count (stats (snd (v, s))))
          (write_bytes (stats (snd (v, s)))) (write_duration_min (stats (snd (v, s))))
          (ticks (snd (v, s)))"
    using inv by simp
next
  fix a b :: "lfsr_word_t \<times> sys"
  assume i: "timing_inv (counter_reading e) t0 (write_count (stats (snd a)))
             (write_bytes (stats (snd a))) (write_duration_min (stats (snd a))) (ticks (snd a))"
    and it: "write_iteration e fl a = Continue b"
  obtain v1 s1 where a: "a = (v1, s1)" by (cases a)
  obtain v2 s2 where b: "b = (v2, s2)" by (cases b)
  from it[unfolded a b]
  show "timing_inv (counter_reading e) t0 (write_count (stats (snd b)))
             (write_bytes (stats (snd b))) (write_duration_min (stats (snd b))) (ticks (snd b))"
  proof (rule write_iteration_ContinueE)
    fix p
    assume lt: "write_bytes (stats s1) < bytes_to_write"
      and s2: "s2 = s1\<lparr>polls := Suc (polls s1), readies := Suc (readies s1),
                 ticks := Suc (Suc (ticks s1)), writes := Suc (writes s1),
                 files := (files s1)(p \<mapsto> (case files s1 p of None \<Rightarrow> [] | Some c \<Rightarrow> c)
                      @ snd (lfsr_fill (lfsr_advance e) v1 buffer_words)),
                 stats := account_write (counter_reading e (Suc (ticks s1)) - counter_reading e (ticks s1)) (stats s1)\<rparr>"
    have "timing_inv (counter_reading e) t0 (write_count (stats s1) + 1)
            (write_bytes (stats s1) + write_size)
            (write_duration_min (account_write
                (counter_reading e (Suc (ticks s1)) - counter_reading e (ticks s1)) (stats s1)))
            (Suc (Suc (ticks s1)))"
      by (rule timing_inv_step[OF mono _ lt]) (use i in \<open>simp_all add: a account_write_min_max\<close>)
    then show ?thesis by (simp add: b s2)
  qed
next
  fix a b :: "lfsr_word_t \<times> sys"
  assume i: "timing_inv (counter_reading e) t0 (write_count (stats (snd a)))
             (write_bytes (stats (snd a))) (write_duration_min (stats (snd a))) (ticks (snd a))"
    and it: "write_iteration e fl a = Break b"
  then show "timing_post (counter_reading e) t0 (write_count (stats (snd b)))
             (write_bytes (stats (snd b))) (write_duration_min (stats (snd b))) (ticks (snd b))"
    by (cases a, cases b) (auto simp: timing_post_def elim!: write_iteration_BreakE)
qed

lemma read_loop_timing:
  assumes mono: "counter_increasing (counter_reading e) t0"
    and inv: "timing_inv (counter_reading e) t0 (read_count (stats s)) (read_bytes (stats s))
                (read_duration_min (stats s)) (ticks s)"
  shows "fst (read_loop e (v, fl, s)) = None \<longrightarrow>
         timing_post (counter_reading e) t0
           (read_count (stats (snd (snd (snd (read_loop e (v, fl, s)))))))
           (read_bytes (stats (snd (snd (snd (read_loop e (v, fl, s)))))))
           (read_duration_min (stats (snd (snd (snd (read_loop e (v, fl, s)))))))
           (ticks (snd (snd (snd (read_loop e (v, fl, s))))))"
proof (rule read_loop_rule[where
      P = "\<lambda>st. timing_inv (counter_reading e) t0 (read_count (stats (snd (snd st))))
             (read_bytes (stats (snd (snd st)))) (read_duration_min (stats (snd (snd st))))
             (ticks (snd (snd st)))"
      and Q = "\<lambda>r. fst r = None \<longrightarrow> timing_post (counter_reading e) t0
           (read_count (stats (snd (snd (snd r))))) (read_bytes (stats (snd (snd (snd r)))))
           (read_duration_min (stats (snd (snd (snd r))))) (ticks (snd (snd (snd r))))"])
  show "timing_inv (counter_reading e) t0 (read_count (stats (snd (snd (v, fl, s)))))
          (read_bytes (stats (snd (snd (v, fl, s))))) (read_duration_min (stats (snd (snd (v, fl, s)))))
          (ticks (snd (snd (v, fl, s))))"
    using inv by simp
next
  fix a b :: "lfsr_word_t \<times> File \<times> sys"
  assume i: "timing_inv (counter_reading e) t0 (read_count (stats (snd (snd a))))
             (read_bytes (stats (snd (snd a)))) (read_duration_min (stats (snd (snd a))))
             (ticks (snd (snd a)))"
    and it: "read_iteration e a = Read_Continue b"
  obtain v1 f1 s1 where a: "a = (v1, f1, s1)" by (cases a)
  obtain v2 f2 s2 where b: "b = (v2, f2, s2)" by (cases b)
  from it[unfolded a b]
  show "timing_inv (counter_reading e) t0 (read_count (stats (snd (snd b))))
             (read_bytes (stats (snd (snd b)))) (read_duration_min (stats (snd (snd b))))
             (ticks (snd (snd b)))"
  proof (rule read_iteration_ContinueE)
    assume lt: "read_bytes (stats s1) < bytes_to_read"
      and s2: "s2 = s1\<lparr>polls := Suc (polls s1), readies := Suc (readies s1),
                 ticks := Suc (Suc (ticks s1)), reads := Suc (reads s1),
                 stats := account_read (counter_reading e (Suc (ticks s1)) - counter_reading e (ticks s1)) (stats s1)\<rparr>"
    have "timing_inv (counter_reading e) t0 (read_count (stats s1) + 1)
            (read_bytes (stats s1) + write_size)
            (read_duration_min (account_read
                (counter_reading e (Suc (ticks s1)) - counter_reading e (ticks s1)) (stats s1)))
            (Suc (Suc (ticks s1)))"
      by (rule timing_inv_step[OF mono _ lt[unfolded bytes_to_read_def]])
         (use i in \<open>simp_all add: a account_read_min_max\<close>)
    then show ?thesis by (simp add: b s2)
  qed
next
  fix a b :: "lfsr_word_t \<times> File \<times> sys"
  assume i: "timing_inv (counter_reading e) t0 (read_count (stats (snd (snd a))))
             (read_bytes (stats (snd (snd a)))) (read_duration_min (stats (snd (snd a))))
             (ticks (snd (snd a)))"
    and it: "read_iteration e a = Read_Break b"
  then show "fst (None :: Result option, b) = None \<longrightarrow> timing_post (counter_reading e) t0
           (read_count (stats (snd (snd (snd (None :: Result option, b))))))
           (read_bytes (stats (snd (snd (snd (None :: Result option, b))))))
           (read_duration_min (stats (snd (snd (snd (None :: Result option, b))))))
           (ticks (snd (snd (snd (None :: Result option, b)))))"
    by (cases a, cases b) (auto simp: timing_post_def elim!: read_iteration_BreakE)
next
  fix a b :: "lfsr_word_t \<times> File \<times> sys" and r :: Result
  show "fst (Some r, b) = None \<longrightarrow> timing_post (counter_reading e) t0
           (read_count (stats (snd (snd (snd (Some r, b))))))
           (read_bytes (stats (snd (snd (snd (Some r, b))))))
           (read_duration_min (stats (snd (snd (snd (Some r, b))))))
           (ticks (snd (snd (snd (Some r, b)))))"
    by simp
qed

lemma timing_inv_fresh:
  "cnt = 0 \<Longrightarrow> byt = 0 \<Longrightarrow> timing_inv C t0 cnt byt mn (Suc t0)"
  by (simp add: timing_inv_def)

lemma write_phase_min_le_avg:
  assumes fresh: "write_count (stats s) = 0" "write_bytes (stats s) = 0"
    and pos: "write_count (stats (snd (write e fn s))) \<noteq> 0"
    and mono: "counter_increasing (counter_reading e) (ticks s)"
  shows "write_duration_min (stats (snd (write e fn s)))
           \<le> write_test_duration (stats (snd (write e fn s))) div write_count (stats (snd (write e fn s)))"
proof (cases "heap_ok e (allocs s) \<and> open_write_ok e (opens_w s)")
  case False
  then have "stats (snd (write e fn s)) = stats s" by (auto simp: write_def prim_defs)
  then show ?thesis using pos fresh by simp
next
  case True
  define s4 where "s4 = snd (write_loop e (OpenForWriting fn) (1, write_begin fn s))"
  have w: "write e fn s = (OK, write_finish e (ticks s) s4)"
    using True by (simp add: write_unfold s4_def)
  have "timing_post (counter_reading e) (ticks s) (write_count (stats s4)) (write_bytes (stats s4))
          (write_duration_min (stats s4)) (ticks s4)"
    unfolding s4_def
    by (rule write_loop_timing[OF mono])
       (simp add: write_begin_def timing_inv_fresh fresh)
  then obtain tk where tk: "timing_inv (counter_reading e) (ticks s) (write_count (stats s4))
      (write_bytes (stats s4)) (write_duration_min (stats s4)) tk" "ticks s4 = tk \<or> ticks s4 = Suc tk"
    by (auto simp: timing_post_def)
  have "write_count (stats s4) \<noteq> 0" using pos by (simp add: w write_finish_def)
  from timing_inv_final[OF mono tk this]
  show ?thesis by (simp add: w write_finish_def)
qed

lemma read_phase_min_le_avg:
  assumes fresh: "read_count (stats s) = 0" "read_bytes (stats s) = 0"
    and pos: "read_count (stats (snd (read e fn s))) \<noteq> 0"
    and mono: "counter_increasing (counter_reading e) (ticks s)"
    and ok: "fst (read e fn s) = OK"
  shows "read_duration_min (stats (snd (read e fn s)))
           \<le> read_test_duration (stats (snd (read e fn s))) div read_count (stats (snd (read e fn s)))"
proof (cases "heap_ok e (allocs s) \<and> open_read_ok e (opens_r s) \<and> files s fn \<noteq> None")
  case False
  then have "stats (snd (read e fn s)) = stats s" by (auto simp: read_def prim_defs)
  then show ?thesis using pos fresh by simp
next
  case True
  define r where "r = read_loop e (1, OpenForReading fn 0, read_begin s)"
  define s4 where "s4 = snd (snd (snd r))"
  have none: "fst r = None"
  proof (cases "fst r")
    case None
    then show ?thesis .
  next
    case (Some x)
    have "fst (read_loop e (1, OpenForReading fn 0, read_begin s)) = None
          \<or> fst (read_loop e (1, OpenForReading fn 0, read_begin s)) = Some FailCompare"
      by (rule read_loop_rule[where P = "\<lambda>_. True"
            and Q = "\<lambda>r. fst r = None \<or> fst r = Some FailCompare"])
         (auto elim!: read_iteration_ReturnE)
    with Some have "fst r = Some FailCompare" by (simp add: r_def)
    then have "fst (read e fn s) = FailCompare"
      using True by (simp add: read_def prim_defs read_begin_def r_def split_beta)
    with ok show ?thesis by simp
  qed
  have w: "read e fn s = (OK, read_finish e (ticks s) s4)"
    using True none by (simp add: read_unfold s4_def r_def)
  have "fst r = None \<longrightarrow> timing_post (counter_reading e) (ticks s) (read_count (stats s4))
          (read_bytes (stats s4)) (read_duration_min (stats s4)) (ticks s4)"
    unfolding s4_def r_def
    by (rule read_loop_timing[OF mono])
       (simp add: read_begin_def timing_inv_fresh fresh)
  with none obtain tk where tk: "timing_inv (counter_reading e) (ticks s) (read_count (stats s4))
      (read_bytes (stats s4)) (read_duration_min (stats s4)) tk" "ticks s4 = tk \<or> ticks s4 = Suc tk"
    by (auto simp: timing_post_def)
  have "read_count (stats s4) \<noteq> 0" using pos by (simp add: w read_finish_def)
  from timing_inv_final[OF mono tk this]
  show ?thesis by (simp add: w read_finish_def)
qed

lemma account_write_min_le_max:
  "write_duration_min (account_write d st) \<le> write_duration_max (account_write d st)"
  by (auto simp: account_write_min_max)

lemma account_read_min_le_max:
  "read_duration_min (account_read d st) \<le> read_duration_max (account_read d st)"
  by (auto simp: account_read_min_max)

lemma write_phase_min_le_max:
  assumes "write_count (stats s) = 0 \<or> write_duration_min (stats s) \<le> write_duration_max (stats s)"
  shows "write_count (stats (snd (write e fn s))) = 0 \<or>
         write_duration_min (stats (snd (write e fn s))) \<le> write_duration_max (stats (snd (write e fn s)))"
proof (cases "heap_ok e (allocs s) \<and> open_write_ok e (opens_w s)")
  case False
  then have "stats (snd (write e fn s)) = stats s" by (auto simp: write_def prim_defs)
  then show ?thesis using assms by simp
next
  case True
  have "(\<lambda>st. write_count (stats (snd st)) = 0 \<or>
           write_duration_min (stats (snd st)) \<le> write_duration_max (stats (snd st)))
        (write_loop e (OpenForWriting fn) (1, write_begin fn s))"
  proof (rule write_loop_rule[where P = "\<lambda>st. write_count (stats (snd st)) = 0 \<or>
           write_duration_min (stats (snd st)) \<le> write_duration_max (stats (snd st))"])
    show "write_count (stats (snd (1 :: lfsr_word_t, write_begin fn s))) = 0 \<or>
          write_duration_min (stats (snd (1 :: lfsr_word_t, write_begin fn s)))
            \<le> write_duration_max (stats (snd (1 :: lfsr_word_t, write_begin fn s)))"
      using assms by (simp add: write_begin_def)
  next
    fix a b :: "lfsr_word_t \<times> sys"
    assume "write_iteration e (OpenForWriting fn) a = Continue b"
    then show "write_count (stats (snd b)) = 0 \<or>
           write_duration_min (stats (snd b)) \<le> write_duration_max (stats (snd b))"
      by (cases a, cases b) (auto elim!: write_iteration_ContinueE simp: account_write_min_le_max)
  next
    fix a b :: "lfsr_word_t \<times> sys"
    assume "write_count (stats (snd a)) = 0 \<or>
           write_duration_min (stats (snd a)) \<le> write_duration_max (stats (snd a))"
      "write_iteration e (OpenForWriting fn) a = Break b"
    then show "write_count (stats (snd b)) = 0 \<or>
           write_duration_min (stats (snd b)) \<le> write_duration_max (stats (snd b))"
      by (cases a, cases b) (auto elim!: write_iteration_BreakE)
  qed
  then show ?thesis using True by (simp add: write_unfold write_finish_def)
qed

lemma read_phase_min_le_max:
  assumes "read_count (stats s) = 0 \<or> read_duration_min (stats s) \<le> read_duration_max (stats s)"
  shows "read_count (stats (snd (read e fn s))) = 0 \<or>
         read_duration_min (stats (snd (read e fn s))) \<le> read_duration_max (stats (snd (read e fn s)))"
proof (cases "heap_ok e (allocs s) \<and> open_read_ok e (opens_r s) \<and> files s fn \<noteq> None")
  case False
  then have "stats (snd (read e fn s)) = stats s" by (auto simp: read_def prim_defs)
  then show ?thesis using assms by simp
next
  case True
  have "(\<lambda>r. read_count (stats (snd (snd (snd r)))) = 0 \<or>
           read_duration_min (stats (snd (snd (snd r)))) \<le> read_duration_max (stats (snd (snd (snd r)))))
        (read_loop e (1, OpenForReading fn 0, read_begin s))"
  proof (rule read_loop_rule[where P = "\<lambda>st. read_count (stats (snd (snd st))) = 0 \<or>
           read_duration_min (stats (snd (snd st))) \<le> read_duration_max (stats (snd (snd st)))"])
    show "read_count (stats (snd (snd (1 :: lfsr_word_t, OpenForReading fn 0, read_begin s)))) = 0 \<or>
          read_duration_min (stats (snd (snd (1 :: lfsr_word_t, OpenForReading fn 0, read_begin s))))
            \<le> read_duration_max (stats (snd (snd (1 :: lfsr_word_t, OpenForReading fn 0, read_begin s))))"
      using assms by (simp add: read_begin_def)
  next
    fix a b :: "lfsr_word_t \<times> File \<times> sys"
    assume "read_iteration e a = Read_Continue b"
    then show "read_count (stats (snd (snd b))) = 0 \<or>
           read_duration_min (stats (snd (snd b))) \<le> read_duration_max (stats (snd (snd b)))"
      by (cases a, cases b) (auto elim!: read_iteration_ContinueE simp: account_read_min_le_max)
  next
    fix a b :: "lfsr_word_t \<times> File \<times> sys"
    assume "read_count (stats (snd (snd a))) = 0 \<or>
           read_duration_min (stats (snd (snd a))) \<le> read_duration_max (stats (snd (snd a)))"
      "read_iteration e a = Read_Break b"
    then show "read_count (stats (snd (snd (snd (None :: Result option, b))))) = 0 \<or>
           read_duration_min (stats (snd (snd (snd (None :: Result option, b)))))
             \<le> read_duration_max (stats (snd (snd (snd (None :: Result option, b)))))"
      by (cases a, cases b) (auto elim!: read_iteration_BreakE)
  next
    fix a b :: "lfsr_word_t \<times> File \<times> sys" and r :: Result
    assume "read_iteration e a = Read_Return r b"
    then show "read_count (stats (snd (snd (snd (Some r, b))))) = 0 \<or>
           read_duration_min (stats (snd (snd (snd (Some r, b)))))
             \<le> read_duration_max (stats (snd (snd (snd (Some r, b)))))"
      by (cases a, cases b) (auto elim!: read_iteration_ReturnE simp: account_read_min_le_max)
  qed
  then show ?thesis using True
    by (auto simp add: read_def prim_defs read_begin_def split_beta split: option.splits)
qed

lemma cancel_run:
  "fst (run cancel_after_first_chunk (sys_init Map.empty)) = FailWriteIncomplete"
  using run_cancelled_in_write[of cancel_after_first_chunk 1 Map.empty]
  by (simp add: cancel_after_first_chunk_def faultless_def)

lemma cancel_write_stats:
  "stats (snd (write cancel_after_first_chunk filename (sys_init Map.empty)))
     = Stats_init\<lparr>write_duration_min := 1, write_duration_max := 1, write_test_duration := 3,
         write_bytes := 16384, write_count := 1\<rparr>"
proof -
  define s0 where "s0 = write_begin filename (sys_init Map.empty)"
  obtain v1 s1 where it1: "write_iteration cancel_after_first_chunk (OpenForWriting filename) (1, s0)
      = Continue (v1, s1)"
    and s1: "polls s1 = 1" "ticks s1 = 3"
      "stats s1 = Stats_init\<lparr>write_bytes := 16384, write_count := 1,
          write_duration_min := 1, write_duration_max := 1\<rparr>"
    by (simp add: write_iteration_def prim_defs split_beta s0_def write_begin_def
        cancel_after_first_chunk_def faultless_def account_write_def Let_def
        bytes_to_write_def write_size_def Stats_init_def)
  have it2: "write_iteration cancel_after_first_chunk (OpenForWriting filename) (v1, s1)
      = Break (v1, s1\<lparr>polls := Suc (polls s1)\<rparr>)"
    using s1 by (simp add: write_iteration_def prim_defs cancel_after_first_chunk_def faultless_def)
  have "write_loop cancel_after_first_chunk (OpenForWriting filename) (1, s0)
      = (v1, s1\<lparr>polls := Suc (polls s1)\<rparr>)"
    by (simp add: write_loop_Continue[OF it1] write_loop_Break[OF it2])
  then show ?thesis
    using s1
    by (simp add: write_unfold cancel_after_first_chunk_def faultless_def
        s0_def[symmetric] write_finish_def Stats_init_def)
qed

lemma run_stats_cases:
  "stats (snd (run e s)) = stats (snd (write e filename s)) \<or>
   stats (snd (run e s)) =
     stats (snd (read e filename
       ((snd (write e filename s))\<lparr>polls := Suc (polls (snd (write e filename s)))\<rparr>)))"
  by (simp add: run_def split_beta chThdShouldTerminate_def Let_def f_unlink_def)

lemma run_bytes_count:
  "bytes_match_count (write_bytes (stats (snd (run e (sys_init fs)))))
                     (write_count (stats (snd (run e (sys_init fs))))) \<and>
   bytes_match_count (read_bytes (stats (snd (run e (sys_init fs)))))
                     (read_count (stats (snd (run e (sys_init fs)))))"
proof -
  define s1 where "s1 = snd (write e filename (sys_init fs))"
  define s2 where "s2 = s1\<lparr>polls := Suc (polls s1)\<rparr>"
  define s3 where "s3 = snd (read e filename s2)"
  have w1: "bytes_match_count (write_bytes (stats s1)) (write_count (stats s1))"
    unfolding s1_def by (rule write_phase_bytes_count) (simp add: bytes_match_count_def)
  have r1: "bytes_match_count (read_bytes (stats s1)) (read_count (stats s1))"
    using write_phase_frame[of e filename "sys_init fs"]
    by (simp add: s1_def read_stats_of_def bytes_match_count_def)
  have r3: "bytes_match_count (read_bytes (stats s3)) (read_count (stats s3))"
    unfolding s3_def by (rule read_phase_bytes_count) (use r1 in \<open>simp add: s2_def\<close>)
  have w3: "bytes_match_count (write_bytes (stats s3)) (write_count (stats s3))"
    using read_phase_frame[of e filename s2] w1
    by (simp add: s3_def s2_def write_stats_of_def)
  from run_stats_cases[of e "sys_init fs"]
  have "stats (snd (run e (sys_init fs))) = stats s1 \<or> stats (snd (run e (sys_init fs))) = stats s3"
    by (simp add: s1_def s2_def s3_def)
  then show ?thesis using w1 r1 w3 r3 by auto
qed

subsection \<open>Concrete environments\<close>

lemma counter_increasing_of_nat: "counter_increasing (\<lambda>n. of_nat n) 0"
proof -
  have "\<And>i. i \<le> 2050 \<Longrightarrow> unat (of_nat i :: halrtcnt_t) = i"
    by (simp add: unat_of_nat)
  then show ?thesis
    by (simp add: counter_increasing_def word_less_nat_alt)
qed

lemma buffer_words_pos: "0 < buffer_words"
  by (simp add: buffer_words_def write_size_def sizeof_lfsr_word_t_def)

lemma lfsr_compare_Nil:
  "0 < n \<Longrightarrow> snd (lfsr_compare adv v [] n) = False"
  by (cases n) (simp_all add: split_beta)

lemma run_first_read_fails:
  assumes "heap_ok e 0" and "open_write_ok e 0"
    and "\<forall>i<1024. \<not> terminate_requested e i \<and> ready_ok e i \<and> write_ok e i"
    and go: "\<not> terminate_requested e 1025"
    and "heap_ok e 1" and "open_read_ok e 0" and bad: "\<not> read_ok e 0"
  shows "fst (run e (sys_init fs)) = FailReadIncomplete"
proof -
  define s1 where "s1 = snd (write e filename (sys_init fs))"
  define s2 where "s2 = s1\<lparr>polls := Suc (polls s1)\<rparr>"
  note w = write_full[OF assms(1-3), of fs]
  have fr: "allocs s2 = 1" "opens_r s2 = 0" "reads s2 = 0"
    "read_count (stats s2) = 0" "read_bytes (stats s2) = 0"
    using write_phase_frame[of e filename "sys_init fs"]
    by (simp_all add: s1_def s2_def read_stats_of_def)
  have r: "fst (read e filename s2) = OK \<and>
         unat (read_count (stats (snd (read e filename s2)))) = 0 \<and>
         unat (read_bytes (stats (snd (read e filename s2)))) = 0 * 16384 \<and>
         polls (snd (read e filename s2)) = Suc (polls s2 + 0)"
    by (rule read_phase_exact[where c = "snd (lfsr_fill (lfsr_advance e) 1 (1024 * buffer_words))"])
       (use assms fr w in \<open>simp_all add: s2_def s1_def\<close>)
  then have lt: "read_bytes (stats (snd (read e filename s2))) < bytes_to_read"
    by (simp add: word_less_nat_alt bytes_to_read_def bytes_to_write_def)
  have "run e (sys_init fs) =
     (if fst (read e filename s2) \<noteq> OK then read e filename s2
      else if read_bytes (stats (snd (read e filename s2))) < bytes_to_read
      then (FailReadIncomplete, f_unlink filename (snd (read e filename s2)))
      else if terminate_requested e (polls (snd (read e filename s2)))
      then (FailAbort, (f_unlink filename (snd (read e filename s2)))
                          \<lparr>polls := Suc (polls (snd (read e filename s2)))\<rparr>)
      else (OK, (f_unlink filename (snd (read e filename s2)))
                          \<lparr>polls := Suc (polls (snd (read e filename s2)))\<rparr>))"
    by (rule run_after_write) (use w go in \<open>simp_all add: s2_def s1_def\<close>)
  then show ?thesis using r lt by simp
qed

lemma read_one_chunk:
  "fst (read faultless filename (sys_init one_chunk_card)) = OK \<and>
   read_count (stats (snd (read faultless filename (sys_init one_chunk_card)))) \<noteq> 0"
proof -
  have "fst (read faultless filename (sys_init one_chunk_card)) = OK \<and>
         unat (read_count (stats (snd (read faultless filename (sys_init one_chunk_card))))) = 1 \<and>
         unat (read_bytes (stats (snd (read faultless filename (sys_init one_chunk_card))))) = 1 * 16384 \<and>
         polls (snd (read faultless filename (sys_init one_chunk_card))) = Suc (polls (sys_init one_chunk_card) + 1)"
    by (rule read_phase_exact[where c = "snd (lfsr_fill example_advance 1 buffer_words)"])
       (use buffer_words_pos in \<open>simp_all add: faultless_def one_chunk_card_def length_lfsr_fill\<close>)
  then show ?thesis by (auto simp: unat_eq_0)
qed

lemma read_garbled:
  "fst (read garbling filename (sys_init one_chunk_card)) = FailCompare"
proof -
  define s0 where "s0 = read_begin (sys_init one_chunk_card)"
  have c: "lfsr_compare example_advance 1 [] buffer_words
             = (fst (lfsr_compare example_advance 1 [] buffer_words), False)"
    using lfsr_compare_Nil[OF buffer_words_pos, of example_advance 1]
    by (simp add: prod_eq_iff)
  have "\<exists>st. read_iteration garbling (1, OpenForReading filename 0, s0) = Read_Return FailCompare st"
    apply (subst read_iteration_def)
    apply (simp add: prim_defs split_beta s0_def read_begin_def garbling_def faultless_def
        one_chunk_card_def length_lfsr_fill bytes_to_read_def bytes_to_write_def Stats_init_def)
    apply (subst c)
    apply simp
    done
  then obtain st where "read_iteration garbling (1, OpenForReading filename 0, s0) = Read_Return FailCompare st"
    by blast
  then have "fst (read_loop garbling (1, OpenForReading filename 0, s0)) = Some FailCompare"
    by (simp add: read_loop_Return)
  then show ?thesis
    by (simp add: read_def prim_defs split_beta s0_def read_begin_def garbling_def faultless_def
        one_chunk_card_def)
qed

section \<open>Properties of the test thread\<close>

text \<open>
  C1. For every nonzero seed \<open>s\<close> and every word count \<open>n\<close>, verifying the \<open>n\<close> words
  generated from \<open>s\<close>, starting again from \<open>s\<close>, reports that all of them matched (and
  leaves the verifier's register where the generator's ended).
\<close>

theorem lfsr_round_trip:
  "s \<noteq> 0 \<Longrightarrow>
   lfsr_compare adv s (snd (lfsr_fill adv s n)) n = (fst (lfsr_fill adv s n), True)"
proof (induction n arbitrary: s)
  case 0
  show ?case by simp
next
  case (Suc n)
  obtain s1 w where step: "adv s = (s1, w)" by (cases "adv s")
  have "lfsr_compare adv s1 (snd (lfsr_fill adv s1 n)) n = (fst (lfsr_fill adv s1 n), True)"
    by (rule lfsr_compare_fill)
  then show ?case by (simp add: step split_beta)
qed

theorem lfsr_round_trip_witness:
  "(1 :: lfsr_word_t) \<noteq> 0 \<and>
   lfsr_compare example_advance 1 (snd (lfsr_fill example_advance 1 3)) 3
     = (fst (lfsr_fill example_advance 1 3), True)"
proof -
  have h: "(1 :: lfsr_word_t) \<noteq> 0" by simp
  from lfsr_round_trip[OF h] show ?thesis using h by blast
qed

text \<open>
  C2, as the code has it. If the write loop first sees the termination request at its
  poll number \<open>k\<close> (counted from 0), after \<open>k < 1024\<close> chunks went through, then \<open>write\<close>
  returns \<open>OK\<close> and \<open>run\<close> tests the byte count before it tests for termination: the run
  ends with \<open>FailWriteIncomplete\<close>, not \<open>FailAbort\<close>. The write statistics are those of
  exactly \<open>k\<close> chunks, and the read phase is never entered: the only allocation is the
  write buffer's, nothing was opened for reading or read, and the read statistics are
  still zero.
\<close>

theorem cancel_during_write_reports_incomplete:
  assumes "heap_ok e 0" and "open_write_ok e 0" and "k < 1024"
    and "\<forall>i<k. \<not> terminate_requested e i \<and> ready_ok e i \<and> write_ok e i"
    and "terminate_requested e k"
  shows "fst (run e (sys_init fs)) = FailWriteIncomplete \<and>
         unat (write_count (stats (snd (run e (sys_init fs))))) = k \<and>
         unat (write_bytes (stats (snd (run e (sys_init fs))))) = k * 16384 \<and>
         allocs (snd (run e (sys_init fs))) = 1 \<and>
         opens_r (snd (run e (sys_init fs))) = 0 \<and>
         reads (snd (run e (sys_init fs))) = 0 \<and>
         read_stats_of (stats (snd (run e (sys_init fs)))) = (0, 0, 0, 0, 0)"
  using assms by (rule run_cancelled_in_write)

theorem cancel_during_write_witness:
  "heap_ok cancel_after_first_chunk 0 \<and> open_write_ok cancel_after_first_chunk 0 \<and>
   (1 :: nat) < 1024 \<and>
   \<not> terminate_requested cancel_after_first_chunk 0 \<and> ready_ok cancel_after_first_chunk 0 \<and>
   write_ok cancel_after_first_chunk 0 \<and> terminate_requested cancel_after_first_chunk 1 \<and>
   fst (run cancel_after_first_chunk (sys_init Map.empty)) = FailWriteIncomplete \<and>
   unat (write_count (stats (snd (run cancel_after_first_chunk (sys_init Map.empty))))) = 1 \<and>
   unat (write_bytes (stats (snd (run cancel_after_first_chunk (sys_init Map.empty))))) = 1 * 16384 \<and>
   allocs (snd (run cancel_after_first_chunk (sys_init Map.empty))) = 1 \<and>
   opens_r (snd (run cancel_after_first_chunk (sys_init Map.empty))) = 0 \<and>
   reads (snd (run cancel_after_first_chunk (sys_init Map.empty))) = 0 \<and>
   read_stats_of (stats (snd (run cancel_after_first_chunk (sys_init Map.empty)))) = (0, 0, 0, 0, 0)"
proof -
  have h: "heap_ok cancel_after_first_chunk 0" "open_write_ok cancel_after_first_chunk 0"
    "(1 :: nat) < 1024"
    "\<forall>i<1. \<not> terminate_requested cancel_after_first_chunk i \<and>
       ready_ok cancel_after_first_chunk i \<and> write_ok cancel_after_first_chunk i"
    "terminate_requested cancel_after_first_chunk 1"
    by (simp_all add: cancel_after_first_chunk_def faultless_def)
  from cancel_during_write_reports_incomplete[OF h, of Map.empty]
  show ?thesis using h by simp
qed

text \<open>
  C2 as stated fails: with the request raised right after the first chunk and nothing
  else going wrong, the run does not end with \<open>FailAbort\<close>.
\<close>

theorem cancel_during_write_not_aborted:
  "\<not> terminate_requested cancel_after_first_chunk 0 \<and>
   terminate_requested cancel_after_first_chunk 1 \<and>
   fst (run cancel_after_first_chunk (sys_init Map.empty)) = FailWriteIncomplete \<and>
   fst (run cancel_after_first_chunk (sys_init Map.empty)) \<noteq> FailAbort"
  using cancel_run by (simp add: cancel_after_first_chunk_def faultless_def)

text \<open>
  C3. If the write primitive returns false at its call number \<open>k\<close> (counted from 0, so
  after at most \<open>k\<close> chunks) with \<open>k < 1024 = bytes_to_write / write_size\<close>, the run ends
  with \<open>FailWriteIncomplete\<close>, at most \<open>k\<close> chunks are counted, and the read phase is
  never entered.
\<close>

theorem write_fault_reports_incomplete:
  assumes "heap_ok e 0" and "open_write_ok e 0" and "k < 1024" and "\<not> write_ok e k"
  shows "fst (run e (sys_init fs)) = FailWriteIncomplete \<and>
         unat (write_count (stats (snd (run e (sys_init fs))))) \<le> k \<and>
         allocs (snd (run e (sys_init fs))) = 1 \<and>
         opens_r (snd (run e (sys_init fs))) = 0 \<and>
         reads (snd (run e (sys_init fs))) = 0 \<and>
         read_stats_of (stats (snd (run e (sys_init fs)))) = (0, 0, 0, 0, 0)"
  using assms by (rule run_write_fault)

theorem write_fault_witness:
  "heap_ok (write_fails_at 3) 0 \<and> open_write_ok (write_fails_at 3) 0 \<and> (3 :: nat) < 1024 \<and>
   \<not> write_ok (write_fails_at 3) 3 \<and>
   fst (run (write_fails_at 3) (sys_init Map.empty)) = FailWriteIncomplete \<and>
   unat (write_count (stats (snd (run (write_fails_at 3) (sys_init Map.empty))))) \<le> 3 \<and>
   allocs (snd (run (write_fails_at 3) (sys_init Map.empty))) = 1 \<and>
   opens_r (snd (run (write_fails_at 3) (sys_init Map.empty))) = 0 \<and>
   reads (snd (run (write_fails_at 3) (sys_init Map.empty))) = 0 \<and>
   read_stats_of (stats (snd (run (write_fails_at 3) (sys_init Map.empty)))) = (0, 0, 0, 0, 0)"
proof -
  have h: "heap_ok (write_fails_at 3) 0" "open_write_ok (write_fails_at 3) 0"
    "(3 :: nat) < 1024" "\<not> write_ok (write_fails_at 3) 3"
    by (simp_all add: write_fails_at_def faultless_def)
  from write_fault_reports_incomplete[OF h, of Map.empty]
  show ?thesis using h by simp
qed

text \<open>
  C4, as the code has it. Take a run whose write phase returned \<open>OK\<close> with the full byte
  count and saw no termination request before the read phase. If the read phase cannot
  allocate its buffer the run ends with \<open>FailHeap\<close>; if the buffer is there and the file
  cannot be opened for reading the run ends with \<open>FailFileOpenRead\<close>. In both cases the
  read statistics stay at their initial zeros.
\<close>

theorem read_phase_failure_results:
  assumes "fst (write e filename (sys_init fs)) = OK"
    and "\<not> write_bytes (stats (snd (write e filename (sys_init fs)))) < bytes_to_write"
    and "\<not> terminate_requested e (polls (snd (write e filename (sys_init fs))))"
  shows "(\<not> heap_ok e 1 \<longrightarrow>
            fst (run e (sys_init fs)) = FailHeap \<and>
            read_stats_of (stats (snd (run e (sys_init fs)))) = (0, 0, 0, 0, 0)) \<and>
         (heap_ok e 1 \<and> \<not> open_read_ok e 0 \<longrightarrow>
            fst (run e (sys_init fs)) = FailFileOpenRead \<and>
            read_stats_of (stats (snd (run e (sys_init fs)))) = (0, 0, 0, 0, 0))"
  using assms by (rule run_read_phase_fails)

theorem read_phase_failure_witness:
  "fst (write read_alloc_fails filename (sys_init Map.empty)) = OK \<and>
   \<not> write_bytes (stats (snd (write read_alloc_fails filename (sys_init Map.empty)))) < bytes_to_write \<and>
   \<not> terminate_requested read_alloc_fails
        (polls (snd (write read_alloc_fails filename (sys_init Map.empty)))) \<and>
   \<not> heap_ok read_alloc_fails 1 \<and>
   fst (run read_alloc_fails (sys_init Map.empty)) = FailHeap \<and>
   read_stats_of (stats (snd (run read_alloc_fails (sys_init Map.empty)))) = (0, 0, 0, 0, 0) \<and>
   fst (write read_open_fails filename (sys_init Map.empty)) = OK \<and>
   \<not> write_bytes (stats (snd (write read_open_fails filename (sys_init Map.empty)))) < bytes_to_write \<and>
   \<not> terminate_requested read_open_fails
        (polls (snd (write read_open_fails filename (sys_init Map.empty)))) \<and>
   heap_ok read_open_fails 1 \<and> \<not> open_read_ok read_open_fails 0 \<and>
   fst (run read_open_fails (sys_init Map.empty)) = FailFileOpenRead \<and>
   read_stats_of (stats (snd (run read_open_fails (sys_init Map.empty)))) = (0, 0, 0, 0, 0)"
proof -
  have a: "fst (write read_alloc_fails filename (sys_init Map.empty)) = OK"
    "\<not> write_bytes (stats (snd (write read_alloc_fails filename (sys_init Map.empty)))) < bytes_to_write"
    "\<not> terminate_requested read_alloc_fails
        (polls (snd (write read_alloc_fails filename (sys_init Map.empty))))"
    using write_full[of read_alloc_fails Map.empty]
    by (simp_all add: read_alloc_fails_def faultless_def)
  have b: "fst (write read_open_fails filename (sys_init Map.empty)) = OK"
    "\<not> write_bytes (stats (snd (write read_open_fails filename (sys_init Map.empty)))) < bytes_to_write"
    "\<not> terminate_requested read_open_fails
        (polls (snd (write read_open_fails filename (sys_init Map.empty))))"
    using write_full[of read_open_fails Map.empty]
    by (simp_all add: read_open_fails_def faultless_def)
  have c: "\<not> heap_ok read_alloc_fails 1" "heap_ok read_open_fails 1"
    "\<not> open_read_ok read_open_fails 0"
    by (simp_all add: read_alloc_fails_def read_open_fails_def faultless_def)
  from read_phase_failure_results[OF a] read_phase_failure_results[OF b]
  show ?thesis using a b c by blast
qed

text \<open>
  C4 as stated fails for the allocation failure: when only the read buffer cannot be
  allocated, the run ends with \<open>FailHeap\<close>, not with \<open>FailFileOpenRead\<close>.
\<close>

theorem read_alloc_failure_is_FailHeap:
  "\<not> heap_ok read_alloc_fails 1 \<and>
   fst (run read_alloc_fails (sys_init Map.empty)) = FailHeap \<and>
   fst (run read_alloc_fails (sys_init Map.empty)) \<noteq> FailFileOpenRead"
proof -
  have a: "fst (write read_alloc_fails filename (sys_init Map.empty)) = OK"
    "\<not> write_bytes (stats (snd (write read_alloc_fails filename (sys_init Map.empty)))) < bytes_to_write"
    "\<not> terminate_requested read_alloc_fails
        (polls (snd (write read_alloc_fails filename (sys_init Map.empty))))"
    using write_full[of read_alloc_fails Map.empty]
    by (simp_all add: read_alloc_fails_def faultless_def)
  have c: "\<not> heap_ok read_alloc_fails 1"
    by (simp add: read_alloc_fails_def faultless_def)
  from run_read_phase_fails[OF a] c show ?thesis by simp
qed

text \<open>
  C5, as the code has it. Take a phase that starts with its direction's count and bytes
  at zero and ends with a count above zero. Then the recorded minimum chunk duration is
  at most the recorded maximum. If moreover the cycle counter strictly increases, without
  wrapping, over the at most 2050 readings of the phase (and, for the read phase, the
  phase returns \<open>OK\<close>, since a \<open>FailCompare\<close> return leaves the phase duration unrecorded),
  the minimum is at most the phase duration divided by the count. The phase duration
  also covers pattern generation, the loop's own checks and the close, so the quotient
  is not bounded by the maximum chunk duration.
\<close>

theorem phase_duration_bounds:
  "(write_count (stats s) = 0 \<and> write_bytes (stats s) = 0 \<and>
    write_count (stats (snd (write e fn s))) \<noteq> 0 \<longrightarrow>
      write_duration_min (stats (snd (write e fn s)))
        \<le> write_duration_max (stats (snd (write e fn s))) \<and>
      (counter_increasing (counter_reading e) (ticks s) \<longrightarrow>
         write_duration_min (stats (snd (write e fn s)))
           \<le> write_test_duration (stats (snd (write e fn s)))
               div write_count (stats (snd (write e fn s))))) \<and>
   (read_count (stats s) = 0 \<and> read_bytes (stats s) = 0 \<and>
    read_count (stats (snd (read e fn s))) \<noteq> 0 \<longrightarrow>
      read_duration_min (stats (snd (read e fn s)))
        \<le> read_duration_max (stats (snd (read e fn s))) \<and>
      (counter_increasing (counter_reading e) (ticks s) \<and> fst (read e fn s) = OK \<longrightarrow>
         read_duration_min (stats (snd (read e fn s)))
           \<le> read_test_duration (stats (snd (read e fn s)))
               div read_count (stats (snd (read e fn s)))))"
proof -
  have w1: "write_count (stats s) = 0 \<Longrightarrow> write_count (stats (snd (write e fn s))) \<noteq> 0 \<Longrightarrow>
      write_duration_min (stats (snd (write e fn s))) \<le> write_duration_max (stats (snd (write e fn s)))"
    using write_phase_min_le_max[of s e fn] by simp
  have r1: "read_count (stats s) = 0 \<Longrightarrow> read_count (stats (snd (read e fn s))) \<noteq> 0 \<Longrightarrow>
      read_duration_min (stats (snd (read e fn s))) \<le> read_duration_max (stats (snd (read e fn s)))"
    using read_phase_min_le_max[of s e fn] by simp
  show ?thesis
    using w1 r1 write_phase_min_le_avg[of s e fn] read_phase_min_le_avg[of s e fn] by blast
qed

theorem phase_duration_bounds_witness:
  "write_count (stats (sys_init Map.empty)) = 0 \<and> write_bytes (stats (sys_init Map.empty)) = 0 \<and>
   write_count (stats (snd (write faultless filename (sys_init Map.empty)))) \<noteq> 0 \<and>
   counter_increasing (counter_reading faultless) (ticks (sys_init Map.empty)) \<and>
   write_duration_min (stats (snd (write faultless filename (sys_init Map.empty))))
     \<le> write_duration_max (stats (snd (write faultless filename (sys_init Map.empty)))) \<and>
   write_duration_min (stats (snd (write faultless filename (sys_init Map.empty))))
     \<le> write_test_duration (stats (snd (write faultless filename (sys_init Map.empty))))
         div write_count (stats (snd (write faultless filename (sys_init Map.empty)))) \<and>
   read_count (stats (sys_init one_chunk_card)) = 0 \<and> read_bytes (stats (sys_init one_chunk_card)) = 0 \<and>
   read_count (stats (snd (read faultless filename (sys_init one_chunk_card)))) \<noteq> 0 \<and>
   counter_increasing (counter_reading faultless) (ticks (sys_init one_chunk_card)) \<and>
   fst (read faultless filename (sys_init one_chunk_card)) = OK \<and>
   read_duration_min (stats (snd (read faultless filename (sys_init one_chunk_card))))
     \<le> read_duration_max (stats (snd (read faultless filename (sys_init one_chunk_card)))) \<and>
   read_duration_min (stats (snd (read faultless filename (sys_init one_chunk_card))))
     \<le> read_test_duration (stats (snd (read faultless filename (sys_init one_chunk_card))))
         div read_count (stats (snd (read faultless filename (sys_init one_chunk_card))))"
proof -
  have w: "write_count (stats (sys_init Map.empty)) = 0" "write_bytes (stats (sys_init Map.empty)) = 0"
    "write_count (stats (snd (write faultless filename (sys_init Map.empty)))) \<noteq> 0"
    using write_full[of faultless Map.empty] by (simp_all add: faultless_def)
  have c: "counter_increasing (counter_reading faultless) (ticks (sys_init Map.empty))"
    "counter_increasing (counter_reading faultless) (ticks (sys_init one_chunk_card))"
    using counter_increasing_of_nat by (simp_all add: faultless_def)
  have r: "read_count (stats (sys_init one_chunk_card)) = 0" "read_bytes (stats (sys_init one_chunk_card)) = 0"
    "read_count (stats (snd (read faultless filename (sys_init one_chunk_card)))) \<noteq> 0"
    "fst (read faultless filename (sys_init one_chunk_card)) = OK"
    using read_one_chunk by simp_all
  from phase_duration_bounds[of "sys_init Map.empty" faultless filename]
    phase_duration_bounds[of "sys_init one_chunk_card" faultless filename]
  show ?thesis using w c r by blast
qed

text \<open>
  C5 as stated fails in its upper bound: one chunk written between counter readings
  1 and 2, with the phase timed from reading 0 to reading 3, has maximum 1 and phase
  duration 3, so the quotient 3 exceeds the maximum.
\<close>

theorem average_exceeds_maximum:
  "write_count (stats (snd (write cancel_after_first_chunk filename (sys_init Map.empty)))) \<noteq> 0 \<and>
   \<not> write_test_duration (stats (snd (write cancel_after_first_chunk filename (sys_init Map.empty))))
       div write_count (stats (snd (write cancel_after_first_chunk filename (sys_init Map.empty))))
     \<le> write_duration_max (stats (snd (write cancel_after_first_chunk filename (sys_init Map.empty))))"
  by (simp add: cancel_write_stats word_le_nat_alt)

text \<open>
  C6. A phase keeps the equation bytes = count * \<open>write_size\<close> of its direction, read
  without wrap-around: if it holds when the phase starts (as it does for fresh
  statistics), it holds when the phase returns, on every way out of the transfer loop.
  At the end of every run from fresh statistics it holds for both directions.
\<close>

theorem bytes_equal_count_times_chunk:
  "(unat (write_bytes (stats s)) = unat (write_count (stats s)) * unat write_size \<longrightarrow>
      unat (write_bytes (stats (snd (write e fn s))))
        = unat (write_count (stats (snd (write e fn s)))) * unat write_size) \<and>
   (unat (read_bytes (stats s)) = unat (read_count (stats s)) * unat write_size \<longrightarrow>
      unat (read_bytes (stats (snd (read e fn s))))
        = unat (read_count (stats (snd (read e fn s)))) * unat write_size) \<and>
   unat (write_bytes (stats (snd (run e (sys_init fs)))))
     = unat (write_count (stats (snd (run e (sys_init fs))))) * unat write_size \<and>
   unat (read_bytes (stats (snd (run e (sys_init fs)))))
     = unat (read_count (stats (snd (run e (sys_init fs))))) * unat write_size"
  using write_phase_bytes_count[of s e fn] read_phase_bytes_count[of s e fn]
    run_bytes_count[of e fs]
  by (simp add: bytes_match_count_def)

theorem bytes_equal_count_times_chunk_witness:
  "unat (write_bytes (stats (sys_init Map.empty)))
     = unat (write_count (stats (sys_init Map.empty))) * unat write_size \<and>
   unat (write_bytes (stats (snd (write faultless filename (sys_init Map.empty)))))
     = unat (write_count (stats (snd (write faultless filename (sys_init Map.empty))))) * unat write_size \<and>
   unat (read_bytes (stats (sys_init Map.empty)))
     = unat (read_count (stats (sys_init Map.empty))) * unat write_size \<and>
   unat (read_bytes (stats (snd (read faultless filename (sys_init Map.empty)))))
     = unat (read_count (stats (snd (read faultless filename (sys_init Map.empty))))) * unat write_size"
proof -
  have h: "unat (write_bytes (stats (sys_init Map.empty)))
             = unat (write_count (stats (sys_init Map.empty))) * unat write_size"
    "unat (read_bytes (stats (sys_init Map.empty)))
             = unat (read_count (stats (sys_init Map.empty))) * unat write_size"
    by simp_all
  from bytes_equal_count_times_chunk[of "sys_init Map.empty" faultless filename]
  show ?thesis using h by blast
qed

text \<open>
  C7, as the code has it. After each transferred chunk the minimum becomes the chunk's
  duration when the recorded minimum is zero or the duration is strictly below it, and
  stays otherwise; so a duration of zero does replace a recorded nonzero minimum, and
  the zero it leaves counts as nothing recorded for the next chunk. The maximum starts
  at zero and becomes the chunk's duration whenever that exceeds it. The same holds for
  both directions.
\<close>

theorem duration_extremes_policy:
  "write_duration_min (account_write d st)
     = (if write_duration_min st = 0 \<or> d < write_duration_min st then d else write_duration_min st) \<and>
   write_duration_max (account_write d st)
     = (if write_duration_max st < d then d else write_duration_max st) \<and>
   read_duration_min (account_read d st)
     = (if read_duration_min st = 0 \<or> d < read_duration_min st then d else read_duration_min st) \<and>
   read_duration_max (account_read d st)
     = (if read_duration_max st < d then d else read_duration_max st) \<and>
   write_duration_min Stats_init = 0 \<and> write_duration_max Stats_init = 0 \<and>
   read_duration_min Stats_init = 0 \<and> read_duration_max Stats_init = 0"
  by (simp add: account_write_min_max account_read_min_max)

text \<open>
  C7 as stated fails: after a chunk of duration 5 the recorded minimum is 5, and a
  following chunk of duration 0 replaces it by 0, in either direction.
\<close>

theorem zero_duration_replaces_minimum:
  "write_duration_min (account_write 5 Stats_init) = 5 \<and>
   write_duration_min (account_write 0 (account_write 5 Stats_init)) = 0 \<and>
   read_duration_min (account_read 5 Stats_init) = 5 \<and>
   read_duration_min (account_read 0 (account_read 5 Stats_init)) = 0"
  by (simp add: account_write_min_max account_read_min_max)

text \<open>
  C8. With the source's constants (16 MiB per direction in chunks of 16 KiB), every
  allocation, open, readiness check, write and read succeeding, the card returning the
  words it was given, and no termination ever requested, the run ends with \<open>OK\<close>, both
  chunk counts are 1024, and the test file is gone from the card.
\<close>

theorem end_to_end_success:
  assumes "\<forall>i. \<not> terminate_requested e i" and "\<forall>i. heap_ok e i"
    and "\<forall>i. open_write_ok e i" and "\<forall>i. open_read_ok e i"
    and "\<forall>i. ready_ok e i" and "\<forall>i. write_ok e i" and "\<forall>i. read_ok e i"
    and "\<forall>i xs. read_damage e i xs = xs"
  shows "fst (run e (sys_init fs)) = OK \<and>
         write_count (stats (snd (run e (sys_init fs)))) = 1024 \<and>
         read_count (stats (snd (run e (sys_init fs)))) = 1024 \<and>
         files (snd (run e (sys_init fs))) filename = None"
  using assms by (rule run_success)

theorem end_to_end_success_witness:
  "(\<forall>i. \<not> terminate_requested faultless i) \<and> (\<forall>i. heap_ok faultless i) \<and>
   (\<forall>i. open_write_ok faultless i) \<and> (\<forall>i. open_read_ok faultless i) \<and>
   (\<forall>i. ready_ok faultless i) \<and> (\<forall>i. write_ok faultless i) \<and> (\<forall>i. read_ok faultless i) \<and>
   (\<forall>i xs. read_damage faultless i xs = xs) \<and>
   fst (run faultless (sys_init Map.empty)) = OK \<and>
   write_count (stats (snd (run faultless (sys_init Map.empty)))) = 1024 \<and>
   read_count (stats (snd (run faultless (sys_init Map.empty)))) = 1024 \<and>
   files (snd (run faultless (sys_init Map.empty))) filename = None"
proof -
  have h: "\<forall>i. \<not> terminate_requested faultless i" "\<forall>i. heap_ok faultless i"
    "\<forall>i. open_write_ok faultless i" "\<forall>i. open_read_ok faultless i"
    "\<forall>i. ready_ok faultless i" "\<forall>i. write_ok faultless i" "\<forall>i. read_ok faultless i"
    "\<forall>i xs. read_damage faultless i xs = xs"
    by (simp_all add: faultless_def)
  from end_to_end_success[OF h, of Map.empty]
  show ?thesis using h by blast
qed

text \<open>
  C9. Whatever the environment does, a phase returns with as many file handles open as
  when it was entered: after the loop ran to its end, after a break on a failed transfer
  call, after a termination request, and after a verification mismatch, the handle the
  phase opened is closed again. After the loop the code calls \<^verbatim>\<open>file.close()\<close> itself;
  on the \<^verbatim>\<open>FailCompare\<close> return it is the end of the scope of \<^verbatim>\<open>File file\<close> that closes.
\<close>

theorem phase_closes_its_file:
  "open_handles (snd (write e fn s)) = open_handles s \<and>
   open_handles (snd (read e fn s)) = open_handles s"
  using write_phase_frame[of e fn s] read_phase_frame[of e fn s] by simp

theorem phase_closes_its_file_witness:
  "fst (read garbling filename (sys_init one_chunk_card)) = FailCompare \<and>
   open_handles (snd (read garbling filename (sys_init one_chunk_card)))
     = open_handles (sys_init one_chunk_card)"
  using phase_closes_its_file[of garbling filename "sys_init one_chunk_card"] read_garbled
  by blast

text \<open>
  C10. A run that ends with \<open>FailReadIncomplete\<close> has already deleted the test file:
  \<^verbatim>\<open>f_unlink\<close> is called once the read phase has returned \<open>OK\<close>, before the bytes read
  are compared with the target, so the file is gone although the run did not succeed.
\<close>

theorem unlink_before_read_shortfall:
  "fst (run e s) = FailReadIncomplete \<Longrightarrow>
   files (snd (run e s)) filename = None \<and> unlinks (snd (run e s)) = Suc (unlinks s)"
  by (rule run_read_incomplete) simp

theorem unlink_before_read_shortfall_witness:
  "fst (run first_read_fails (sys_init Map.empty)) = FailReadIncomplete \<and>
   files (snd (run first_read_fails (sys_init Map.empty))) filename = None \<and>
   unlinks (snd (run first_read_fails (sys_init Map.empty))) = Suc (unlinks (sys_init Map.empty))"
proof -
  have h: "fst (run first_read_fails (sys_init Map.empty)) = FailReadIncomplete"
    by (rule run_first_read_fails) (simp_all add: first_read_fails_def faultless_def)
  from unlink_before_read_shortfall[OF h] show ?thesis using h by blast
qed

end
